theory Spec2Isabelle
  imports Main "HOL-Library.Word"
begin

unbundle bit_operations_syntax

section \<open>Machine types\<close>

type_synonym u8 = "8 word"
type_synonym u16 = "16 word"

text \<open>Conversion of a signed value to \<^verbatim>\<open>uint32_t\<close> (the usual arithmetic conversion).\<close>

definition u32 :: "int \<Rightarrow> nat" where
  "u32 i = nat (i mod 2 ^ 32)"

section \<open>Crc16 (src/inc/crc16.h)\<close>

definition kPolynomial :: u16 where
  "kPolynomial = 0x1021"

text \<open>One iteration of the loop body of \<^verbatim>\<open>ComputeTableEntry\<close>.\<close>

definition crc_shift :: "u16 \<Rightarrow> u16" where
  "crc_shift x = (if x AND 0x8000 \<noteq> 0 then push_bit 1 x XOR kPolynomial else push_bit 1 x)"

definition ComputeTableEntry :: "u16 \<Rightarrow> u16" where
  "ComputeTableEntry x = (crc_shift ^^ 8) (push_bit 8 x)"

text \<open>
  The two static tables as \<^verbatim>\<open>Crc16::Init\<close> fills them: entry \<open>i\<close> of \<open>ltable\<close> is
  \<open>ComputeTableEntry i\<close>, entry \<open>i\<close> of \<open>htable\<close> is \<open>ComputeTableEntry (i << 4)\<close>.
  \<^verbatim>\<open>Persist::Init\<close> runs \<^verbatim>\<open>crc_.Init()\<close> before anything else, so the tables hold
  these values whenever \<^verbatim>\<open>Process\<close> runs.
\<close>

definition ltable :: "u16 list" where
  "ltable = map (\<lambda>i. ComputeTableEntry (of_nat i)) [0..<16]"

definition htable :: "u16 list" where
  "htable = map (\<lambda>i. ComputeTableEntry (push_bit 4 (of_nat i))) [0..<16]"

text \<open>
  \<^verbatim>\<open>Seed\<close> followed by \<^verbatim>\<open>Process\<close>: the first argument is the running register
  \<^verbatim>\<open>crc_\<close>, the list is the \<^verbatim>\<open>length\<close> bytes at \<^verbatim>\<open>data\<close>.
\<close>

fun Process :: "u16 \<Rightarrow> u8 list \<Rightarrow> u16" where
  "Process c [] = c"
| "Process c (b # bs) =
     (let index = (ucast (drop_bit 8 c) XOR b :: u8)
      in Process (push_bit 8 c XOR ltable ! unat (index AND 0xF)
                    XOR htable ! unat (drop_bit 4 index)) bs)"

subsection \<open>The reference CRC-16 of the specification\<close>

text \<open>
  Written from the specification's words, to be compared with \<open>Process\<close>: polynomial
  \<open>0x1021\<close>, most significant bit first, no reflection of input or output, no final
  XOR. Each byte is XORed into the high byte of the register, which is then shifted
  left eight times, the polynomial being XORed in whenever a set bit is shifted out.
\<close>

definition ref_bit_step :: "u16 \<Rightarrow> u16" where
  "ref_bit_step c = (if bit c 15 then push_bit 1 c XOR 0x1021 else push_bit 1 c)"

definition ref_byte_step :: "u16 \<Rightarrow> u8 \<Rightarrow> u16" where
  "ref_byte_step c b = (ref_bit_step ^^ 8) (c XOR push_bit 8 (ucast b))"

fun crc16_reference :: "u16 \<Rightarrow> u8 list \<Rightarrow> u16" where
  "crc16_reference c [] = c"
| "crc16_reference c (b # bs) = crc16_reference (ref_byte_step c b) bs"

section \<open>The NVMem driver (src/inc/nvmem_template.h)\<close>

text \<open>
  \<^verbatim>\<open>NVMem\<close> is a template parameter of \<^verbatim>\<open>Persist\<close>: four constants and four
  operations on a device. The device state is the type parameter \<open>'m\<close>; every operation
  takes it and returns it, since none of the member functions is \<^verbatim>\<open>const\<close>.
  \<open>Read\<close> returns the bytes copied to \<^verbatim>\<open>dst\<close>, or \<open>None\<close> for \<^verbatim>\<open>false\<close>.
\<close>

record 'm NVMem =
  kSize :: nat
  kEraseGranularity :: nat
  kWriteGranularity :: nat
  kFillByte :: u8
  Read :: "'m \<Rightarrow> nat \<Rightarrow> nat \<Rightarrow> 'm \<times> u8 list option"
  Writable :: "'m \<Rightarrow> nat \<Rightarrow> nat \<Rightarrow> 'm \<times> bool"
  Write :: "'m \<Rightarrow> nat \<Rightarrow> u8 list \<Rightarrow> nat \<Rightarrow> 'm \<times> bool"
  Erase :: "'m \<Rightarrow> nat \<Rightarrow> nat \<Rightarrow> 'm \<times> bool"

text \<open>
  The calls a \<^verbatim>\<open>Persist\<close> instance makes on its \<^verbatim>\<open>nvmem_\<close> are effects; the model
  records each of them, in order, next to the device state.
\<close>

datatype nv_op =
  OpRead nat nat
| OpWritable nat nat
| OpWrite nat "u8 list" nat
| OpErase nat nat

record 'm world =
  dev :: 'm
  trace :: "nv_op list"

section \<open>Persist (src/persist.h)\<close>

datatype Result =
  RESULT_SUCCESS
| RESULT_FAIL_NO_DATA
| RESULT_FAIL_ERASE
| RESULT_FAIL_WRITE
| RESULT_FAIL_READ

text \<open>
  The template parameters: the driver, \<^verbatim>\<open>sizeof(TData)\<close> (a \<^verbatim>\<open>TData\<close> value is its
  byte image, a list of that many bytes), the version tag and the fault-tolerance flag.
\<close>

record 'm tparams =
  nvmem :: "'m NVMem"
  sizeof_TData :: nat
  datatype_version :: u8
  assert_fault_tolerant :: bool

subsection \<open>Region geometry\<close>

text \<open>
  All of these are \<^verbatim>\<open>uint32_t\<close> constant expressions; the reduction modulo \<open>2 ^ 32\<close>
  is written wherever the source's arithmetic or a narrowing conversion can wrap.
  In \<open>PadSize\<close> the remainder is below the granularity, so the subtraction cannot.
\<close>

definition PadSize :: "nat \<Rightarrow> nat \<Rightarrow> nat" where
  "PadSize unpadded_size granularity =
     (let rem = unpadded_size mod granularity
      in (granularity - rem) mod granularity)"

definition kBlockPaddingSize :: "'m tparams \<Rightarrow> nat" where
  "kBlockPaddingSize T =
     PadSize ((sizeof_TData T + 2 + 2) mod 2 ^ 32) (kWriteGranularity (nvmem T))"

definition kBlockSize :: "'m tparams \<Rightarrow> nat" where
  "kBlockSize T = (sizeof_TData T + 2 + 2 + kBlockPaddingSize T) mod 2 ^ 32"

definition kPageSize :: "'m tparams \<Rightarrow> nat" where
  "kPageSize T =
     (kBlockSize T + PadSize (kBlockSize T) (kEraseGranularity (nvmem T))) mod 2 ^ 32"

definition kBlocksPerPage :: "'m tparams \<Rightarrow> nat" where
  "kBlocksPerPage T = kPageSize T div kBlockSize T"

definition kNumBlocks :: "'m tparams \<Rightarrow> nat" where
  "kNumBlocks T =
     min (((kSize (nvmem T) div kPageSize T) * kBlocksPerPage T) mod 2 ^ 32)
         (65535 div 2 + 1)"

definition kNumPages :: "'m tparams \<Rightarrow> nat" where
  "kNumPages T = ((kNumBlocks T + kBlocksPerPage T - 1) mod 2 ^ 32) div kBlocksPerPage T"

text \<open>
  The construction-time checks: the \<^verbatim>\<open>static_assert\<close>s of the class, together with
  what makes its constant expressions well formed (a constant expression that divides
  by zero is rejected by the compiler; \<^verbatim>\<open>kSize\<close> is a \<^verbatim>\<open>uint32_t\<close>; a trivial type has
  a positive size, and \<^verbatim>\<open>Block\<close> is an object whose size fits \<^verbatim>\<open>uint32_t\<close>).
\<close>

definition geometry_ok :: "'m tparams \<Rightarrow> bool" where
  "geometry_ok T \<longleftrightarrow>
     kEraseGranularity (nvmem T) \<le> kSize (nvmem T) \<and>
     kWriteGranularity (nvmem T) \<le> kSize (nvmem T) \<and>
     0 < kBlocksPerPage T \<and>
     0 < kNumPages T \<and>
     0 < kNumBlocks T \<and>
     (assert_fault_tolerant T = False \<or> 2 \<le> kNumPages T) \<and>
     0 < kEraseGranularity (nvmem T) \<and>
     0 < kWriteGranularity (nvmem T) \<and>
     kSize (nvmem T) < 2 ^ 32 \<and>
     0 < sizeof_TData T \<and>
     sizeof_TData T + 2 + 2 + kBlockPaddingSize T < 2 ^ 32"

definition BlockLocation :: "'m tparams \<Rightarrow> nat \<Rightarrow> nat" where
  "BlockLocation T block_n =
     (let page_n = block_n div kBlocksPerPage T;
          block_n' = block_n - page_n * kBlocksPerPage T
      in (page_n * kPageSize T + block_n' * kBlockSize T) mod 2 ^ 32)"

subsection \<open>The block and its byte image\<close>

text \<open>
  \<^verbatim>\<open>struct __attribute__ ((packed)) Block\<close>. The driver reads and writes the struct as
  raw bytes; the two 16-bit fields are in host byte order, taken little-endian here as
  in the specification's layout table.
\<close>

record Block =
  data :: "u8 list"
  sequence_n :: u16
  crc :: u16
  padding :: "u8 list"

definition le16 :: "u16 \<Rightarrow> u8 list" where
  "le16 v = [ucast v, ucast (drop_bit 8 v)]"

definition word_le16 :: "u8 \<Rightarrow> u8 \<Rightarrow> u16" where
  "word_le16 lo hi = ucast lo OR push_bit 8 (ucast hi)"

definition Block_bytes :: "Block \<Rightarrow> u8 list" where
  "Block_bytes b = data b @ le16 (sequence_n b) @ le16 (crc b) @ padding b"

definition Block_of_bytes :: "'m tparams \<Rightarrow> u8 list \<Rightarrow> Block" where
  "Block_of_bytes T bs =
     (let n = sizeof_TData T
      in \<lparr> data = take n bs,
           sequence_n = word_le16 (bs ! n) (bs ! (n + 1)),
           crc = word_le16 (bs ! (n + 2)) (bs ! (n + 3)),
           padding = drop (n + 4) bs \<rparr>)"

definition GetCRC :: "'m tparams \<Rightarrow> Block \<Rightarrow> u16" where
  "GetCRC T blk =
     (let seed = (ucast (datatype_version T) :: u16)
      in Process (seed OR push_bit 8 (NOT seed))
           (take (sizeof_TData T + 2) (Block_bytes blk)))"

subsection \<open>Instance state and driver calls\<close>

text \<open>
  The members \<^verbatim>\<open>block_\<close>, \<^verbatim>\<open>active_block_n_\<close> (an \<^verbatim>\<open>int32_t\<close>, \<open>-1\<close> for none) and
  \<^verbatim>\<open>sequence_\<close>. The register of \<^verbatim>\<open>crc_\<close> is overwritten by \<^verbatim>\<open>Seed\<close> at the start
  of every \<^verbatim>\<open>GetCRC\<close> and is not part of the state.
\<close>

record Persist =
  block :: Block
  active_block_n :: int
  sequence :: u16

definition nvmem_Read ::
  "'m tparams \<Rightarrow> 'm world \<Rightarrow> nat \<Rightarrow> nat \<Rightarrow> 'm world \<times> u8 list option" where
  "nvmem_Read T w location sz =
     (case Read (nvmem T) (dev w) location sz of
        (m, r) \<Rightarrow> (\<lparr> dev = m, trace = trace w @ [OpRead location sz] \<rparr>, r))"

definition nvmem_Writable ::
  "'m tparams \<Rightarrow> 'm world \<Rightarrow> nat \<Rightarrow> nat \<Rightarrow> 'm world \<times> bool" where
  "nvmem_Writable T w location sz =
     (case Writable (nvmem T) (dev w) location sz of
        (m, r) \<Rightarrow> (\<lparr> dev = m, trace = trace w @ [OpWritable location sz] \<rparr>, r))"

definition nvmem_Write ::
  "'m tparams \<Rightarrow> 'm world \<Rightarrow> nat \<Rightarrow> u8 list \<Rightarrow> nat \<Rightarrow> 'm world \<times> bool" where
  "nvmem_Write T w location src sz =
     (case Write (nvmem T) (dev w) location src sz of
        (m, r) \<Rightarrow> (\<lparr> dev = m, trace = trace w @ [OpWrite location src sz] \<rparr>, r))"

definition nvmem_Erase ::
  "'m tparams \<Rightarrow> 'm world \<Rightarrow> nat \<Rightarrow> nat \<Rightarrow> 'm world \<times> bool" where
  "nvmem_Erase T w location sz =
     (case Erase (nvmem T) (dev w) location sz of
        (m, r) \<Rightarrow> (\<lparr> dev = m, trace = trace w @ [OpErase location sz] \<rparr>, r))"

subsection \<open>Recovery: Reset, Init, Load\<close>

text \<open>
  The two sequence comparisons of the scan in \<^verbatim>\<open>Reset\<close>. Both operands are
  \<^verbatim>\<open>uint16_t\<close>, promoted to \<^verbatim>\<open>int\<close> before the subtraction, so the differences are
  plain integer differences; \<open>num_blocks\<close> is the \<^verbatim>\<open>int32_t\<close> copy of \<open>kNumBlocks\<close>.
\<close>

definition sequence_newer :: "int \<Rightarrow> u16 \<Rightarrow> u16 \<Rightarrow> bool" where
  "sequence_newer num_blocks sn sq \<longleftrightarrow>
     (uint sn > uint sq \<and> uint sn - uint sq < num_blocks) \<or>
     (uint sn < uint sq \<and> uint sq - uint sn \<ge> num_blocks)"

text \<open>
  The \<^verbatim>\<open>for\<close> loop of \<^verbatim>\<open>Reset\<close> over the block indices still to visit. The flag is
  \<open>False\<close> when a read failed and the function returned from inside the loop. A failed
  read leaves the buffer \<^verbatim>\<open>block_\<close> as it was (what a failing driver leaves in
  \<^verbatim>\<open>dst\<close> is not defined by the interface).
\<close>

fun Reset_scan ::
  "'m tparams \<Rightarrow> nat list \<Rightarrow> Persist \<Rightarrow> 'm world \<Rightarrow> bool \<times> Persist \<times> 'm world" where
  "Reset_scan T [] p w = (True, p, w)"
| "Reset_scan T (i # rest) p w =
     (let location = BlockLocation T i
      in case nvmem_Read T w location (kBlockSize T) of
           (w', None) \<Rightarrow> (False, p\<lparr>active_block_n := - 1\<rparr>, w')
         | (w', Some bytes) \<Rightarrow>
             (let p1 = p\<lparr>block := Block_of_bytes T bytes\<rparr>;
                  p2 = (if crc (block p1) = GetCRC T (block p1)
                        then (let sn = sequence_n (block p1);
                                  num_blocks = int (kNumBlocks T)
                              in if active_block_n p1 = - 1 \<or>
                                    sequence_newer num_blocks sn (sequence p1)
                                 then p1\<lparr>active_block_n := int i, sequence := sn\<rparr>
                                 else p1)
                        else p1)
              in Reset_scan T rest p2 w'))"

definition Reset :: "'m tparams \<Rightarrow> Persist \<Rightarrow> 'm world \<Rightarrow> Result \<times> Persist \<times> 'm world" where
  "Reset T p w =
     (let p0 = p\<lparr>sequence := 0, active_block_n := - 1\<rparr>
      in case Reset_scan T [0..<kNumBlocks T] p0 w of
           (False, p1, w1) \<Rightarrow> (RESULT_FAIL_READ, p1, w1)
         | (True, p1, w1) \<Rightarrow>
             if active_block_n p1 \<noteq> - 1
             then (let location = BlockLocation T (u32 (active_block_n p1))
                   in case nvmem_Read T w1 location (kBlockSize T) of
                        (w2, None) \<Rightarrow> (RESULT_FAIL_READ, p1\<lparr>active_block_n := - 1\<rparr>, w2)
                      | (w2, Some bytes) \<Rightarrow>
                          (RESULT_SUCCESS, p1\<lparr>block := Block_of_bytes T bytes\<rparr>, w2))
             else (RESULT_SUCCESS, p1, w1))"

definition Init :: "'m tparams \<Rightarrow> Persist \<Rightarrow> 'm world \<Rightarrow> Result \<times> Persist \<times> 'm world" where
  "Init T p w = Reset T p w"

text \<open>
  \<^verbatim>\<open>Load\<close> touches only the instance and its output argument: it returns the result
  and the value of \<^verbatim>\<open>data\<close> after the call.
\<close>

definition Load :: "'m tparams \<Rightarrow> Persist \<Rightarrow> u8 list \<Rightarrow> Result \<times> u8 list" where
  "Load T p out =
     (if active_block_n p = - 1 then (RESULT_FAIL_NO_DATA, out)
      else (RESULT_SUCCESS, take (sizeof_TData T) (data (block p))))"

subsection \<open>Commit: Save\<close>

definition DataIsSame :: "'m tparams \<Rightarrow> Persist \<Rightarrow> u8 list \<Rightarrow> bool" where
  "DataIsSame T p d \<longleftrightarrow>
     active_block_n p \<noteq> - 1 \<and>
     take (sizeof_TData T) (data (block p)) = take (sizeof_TData T) d"

text \<open>
  The \<^verbatim>\<open>do ... while\<close> loop of \<^verbatim>\<open>NextWritableBlock\<close>. It ends only by finding a
  writable block or by coming back to \<open>current_block_n\<close>, so it is a partial function:
  \<open>None\<close> stands for a loop that never ends.
\<close>

partial_function (option) NextWritableBlock_loop ::
  "'m tparams \<Rightarrow> int \<Rightarrow> int \<Rightarrow> 'm world \<Rightarrow> (int \<times> 'm world) option" where
  "NextWritableBlock_loop T current_block_n next_block_n w =
     (let next_block_n' = int (u32 (next_block_n + 1) mod kNumBlocks T)
      in case nvmem_Writable T w (BlockLocation T (u32 next_block_n')) (kBlockSize T) of
           (w', writable) \<Rightarrow>
             if writable then Some (next_block_n', w')
             else if next_block_n' \<noteq> current_block_n
             then NextWritableBlock_loop T current_block_n next_block_n' w'
             else Some (next_block_n', w'))"

definition NextWritableBlock ::
  "'m tparams \<Rightarrow> int \<Rightarrow> 'm world \<Rightarrow> (int \<times> 'm world) option" where
  "NextWritableBlock T current_block_n w =
     (let current_block_n' =
            (if current_block_n = - 1 then int (kNumBlocks T) - 1 else current_block_n)
      in case NextWritableBlock_loop T current_block_n' current_block_n' w of
           None \<Rightarrow> None
         | Some (next_block_n, w') \<Rightarrow>
             Some (if next_block_n = current_block_n' then - 1 else next_block_n, w'))"

text \<open>Lines 108 to 114 of \<^verbatim>\<open>Save\<close>: the instance once the new block is encoded.\<close>

definition Save_encode :: "'m tparams \<Rightarrow> Persist \<Rightarrow> int \<Rightarrow> u8 list \<Rightarrow> Persist" where
  "Save_encode T p next_block d =
     (let p1 = p\<lparr>active_block_n := next_block\<rparr>;
          b1 = (block p1)\<lparr>data := take (sizeof_TData T) d,
                          padding := replicate (kBlockPaddingSize T) (kFillByte (nvmem T))\<rparr>;
          b2 = b1\<lparr>sequence_n := sequence p1\<rparr>;
          b3 = b2\<lparr>crc := GetCRC T b2\<rparr>
      in p1\<lparr>block := b3\<rparr>)"

text \<open>Lines 108 to 122: encode, write, and rescan when the write fails.\<close>

definition Save_write ::
  "'m tparams \<Rightarrow> Persist \<Rightarrow> 'm world \<Rightarrow> int \<Rightarrow> u8 list \<Rightarrow> Result \<times> Persist \<times> 'm world" where
  "Save_write T p w next_block d =
     (let p2 = Save_encode T p next_block d;
          location = BlockLocation T (u32 (active_block_n p2))
      in case nvmem_Write T w location (Block_bytes (block p2)) (kBlockSize T) of
           (w', False) \<Rightarrow> (case Reset T p2 w' of (r, p3, w'') \<Rightarrow> (RESULT_FAIL_WRITE, p3, w''))
         | (w', True) \<Rightarrow> (RESULT_SUCCESS, p2, w'))"

text \<open>The page erased when every block is taken and a block is active (lines 91, 92).\<close>

definition next_page_of :: "'m tparams \<Rightarrow> int \<Rightarrow> nat" where
  "next_page_of T active =
     (let current_page = u32 active div kBlocksPerPage T
      in ((current_page + 1) mod 2 ^ 32) mod kNumPages T)"

definition Save ::
  "'m tparams \<Rightarrow> Persist \<Rightarrow> 'm world \<Rightarrow> u8 list \<Rightarrow> (Result \<times> Persist \<times> 'm world) option" where
  "Save T p w d =
     (if DataIsSame T p d then Some (RESULT_SUCCESS, p, w)
      else case NextWritableBlock T (active_block_n p) w of
             None \<Rightarrow> None
           | Some (next_block, w1) \<Rightarrow>
               if next_block = - 1
               then if active_block_n p = - 1
                    then (case nvmem_Erase T w1 0 ((kNumPages T * kPageSize T) mod 2 ^ 32) of
                            (w2, False) \<Rightarrow> Some (RESULT_FAIL_ERASE, p, w2)
                          | (w2, True) \<Rightarrow> Some (Save_write T (p\<lparr>sequence := 0\<rparr>) w2 0 d))
                    else (let next_page = next_page_of T (active_block_n p)
                          in case nvmem_Erase T w1 ((next_page * kPageSize T) mod 2 ^ 32)
                                    (kPageSize T) of
                               (w2, False) \<Rightarrow> Some (RESULT_FAIL_ERASE, p, w2)
                             | (w2, True) \<Rightarrow>
                                 Some (Save_write T (p\<lparr>sequence := sequence p + 1\<rparr>) w2
                                         (int ((next_page * kBlocksPerPage T) mod 2 ^ 32)) d))
               else Some (Save_write T (p\<lparr>sequence := sequence p + 1\<rparr>) w1 next_block d))"

text \<open>
  After \<^verbatim>\<open>Init\<close> and after every \<^verbatim>\<open>Save\<close> the index \<^verbatim>\<open>active_block_n_\<close> is \<open>-1\<close> or
  the index of a block of the region.
\<close>

definition active_in_range :: "'m tparams \<Rightarrow> Persist \<Rightarrow> bool" where
  "active_in_range T p \<longleftrightarrow>
     active_block_n p = - 1 \<or> (0 \<le> active_block_n p \<and> active_block_n p < int (kNumBlocks T))"

subsection \<open>Observing the driver calls\<close>

fun is_read :: "nv_op \<Rightarrow> bool" where
  "is_read (OpRead location sz) = True"
| "is_read other = False"

fun is_probe :: "nv_op \<Rightarrow> bool" where
  "is_probe (OpWritable location sz) = True"
| "is_probe other = False"

fun is_write :: "nv_op \<Rightarrow> bool" where
  "is_write (OpWrite location src sz) = True"
| "is_write other = False"

fun is_erase :: "nv_op \<Rightarrow> bool" where
  "is_erase (OpErase location sz) = True"
| "is_erase other = False"

text \<open>The byte range of the region that a driver call changes, if it changes any.\<close>

fun modified_range :: "nv_op \<Rightarrow> (nat \<times> nat) option" where
  "modified_range (OpWrite location src sz) = Some (location, sz)"
| "modified_range (OpErase location sz) = Some (location, sz)"
| "modified_range other = None"

definition ranges_disjoint :: "nat \<Rightarrow> nat \<Rightarrow> nat \<Rightarrow> nat \<Rightarrow> bool" where
  "ranges_disjoint l1 s1 l2 s2 \<longleftrightarrow> l1 + s1 \<le> l2 \<or> l2 + s2 \<le> l1"

text \<open>
  The device after a driver call, and after a list of them. The trace records the
  calls in order, so the device in which a call of the trace ran is the replay of the
  calls before it.
\<close>

fun run_op :: "'m tparams \<Rightarrow> 'm \<Rightarrow> nv_op \<Rightarrow> 'm" where
  "run_op T m (OpRead location sz) = fst (Read (nvmem T) m location sz)"
| "run_op T m (OpWritable location sz) = fst (Writable (nvmem T) m location sz)"
| "run_op T m (OpWrite location src sz) = fst (Write (nvmem T) m location src sz)"
| "run_op T m (OpErase location sz) = fst (Erase (nvmem T) m location sz)"

definition replay :: "'m tparams \<Rightarrow> 'm \<Rightarrow> nv_op list \<Rightarrow> 'm" where
  "replay T m ops = foldl (run_op T) m ops"

text \<open>
  What the driver answered to the first \<open>Write\<close> (to the first \<open>Erase\<close>) among the calls
  \<open>ops\<close> issued from device \<open>m\<close>; \<open>None\<close> when there is no such call.
\<close>

fun write_outcome :: "'m tparams \<Rightarrow> 'm \<Rightarrow> nv_op list \<Rightarrow> bool option" where
  "write_outcome T m [] = None"
| "write_outcome T m (OpWrite location src sz # ops) =
     Some (snd (Write (nvmem T) m location src sz))"
| "write_outcome T m (op # ops) = write_outcome T (run_op T m op) ops"

fun erase_outcome :: "'m tparams \<Rightarrow> 'm \<Rightarrow> nv_op list \<Rightarrow> bool option" where
  "erase_outcome T m [] = None"
| "erase_outcome T m (OpErase location sz # ops) =
     Some (snd (Erase (nvmem T) m location sz))"
| "erase_outcome T m (op # ops) = erase_outcome T (run_op T m op) ops"

text \<open>\<^verbatim>\<open>Save(d); Save(d)\<close>: both results, and the instance and the world at the end.\<close>

definition Save_twice ::
  "'m tparams \<Rightarrow> Persist \<Rightarrow> 'm world \<Rightarrow> u8 list \<Rightarrow>
     (Result \<times> Result \<times> Persist \<times> 'm world) option" where
  "Save_twice T p w d =
     (case Save T p w d of
        None \<Rightarrow> None
      | Some (r1, p1, w1) \<Rightarrow>
          (case Save T p1 w1 d of
             None \<Rightarrow> None
           | Some (r2, p2, w2) \<Rightarrow> Some (r1, r2, p2, w2)))"

subsection \<open>What the media holds\<close>

text \<open>
  A device on which reading is an observation: a \<open>Read\<close> leaves the device as it is,
  so the same read gives the same answer again.
\<close>

definition reads_pure :: "'m tparams \<Rightarrow> 'm \<Rightarrow> bool" where
  "reads_pure T m \<longleftrightarrow> (\<forall>location sz. fst (Read (nvmem T) m location sz) = m)"

text \<open>The block that a read of block \<open>i\<close> of device \<open>m\<close> returns, if the read succeeds.\<close>

definition stored_block :: "'m tparams \<Rightarrow> 'm \<Rightarrow> nat \<Rightarrow> Block option" where
  "stored_block T m i =
     (case snd (Read (nvmem T) m (BlockLocation T i) (kBlockSize T)) of
        None \<Rightarrow> None
      | Some bytes \<Rightarrow> Some (Block_of_bytes T bytes))"

text \<open>The test of the scan: the stored \<open>crc\<close> field equals the recomputed CRC.\<close>

definition block_valid :: "'m tparams \<Rightarrow> Block \<Rightarrow> bool" where
  "block_valid T b \<longleftrightarrow> crc b = GetCRC T b"

text \<open>The invariant of the scan: the candidate, if any, is a valid stored block.\<close>

definition scan_inv :: "'m tparams \<Rightarrow> 'm \<Rightarrow> Persist \<Rightarrow> bool" where
  "scan_inv T m q \<longleftrightarrow>
     active_block_n q = - 1 \<or>
     (0 \<le> active_block_n q \<and> active_block_n q < int (kNumBlocks T) \<and>
      (\<exists>b. stored_block T m (nat (active_block_n q)) = Some b \<and> block_valid T b \<and>
           sequence_n b = sequence q))"

section \<open>A simulated flash device\<close>

text \<open>
  Modelled from the spec: the NVMem driver itself is not part of the repository (only
  the interface \<^verbatim>\<open>NVMemTemplate\<close> is); this device follows the driver contract of the
  specification. The region is a list of bytes, \<open>Read\<close> copies, \<open>Writable\<close> holds when
  every byte of the range is the fill byte, \<open>Write\<close> commits the bytes, \<open>Erase\<close> fills the
  range with the fill byte. An access beyond the region fails, and so does every read,
  write or erase whose failure flag is set.
\<close>

record flash =
  cells :: "u8 list"
  read_fails :: bool
  write_fails :: bool
  erase_fails :: bool

definition flash_Read :: "flash \<Rightarrow> nat \<Rightarrow> nat \<Rightarrow> flash \<times> u8 list option" where
  "flash_Read m location sz =
     (m, if read_fails m \<or> length (cells m) < location + sz then None
         else Some (take sz (drop location (cells m))))"

definition flash_Writable :: "u8 \<Rightarrow> flash \<Rightarrow> nat \<Rightarrow> nat \<Rightarrow> flash \<times> bool" where
  "flash_Writable fill m location sz =
     (m, location + sz \<le> length (cells m) \<and>
         list_all (\<lambda>b. b = fill) (take sz (drop location (cells m))))"

definition flash_Write :: "flash \<Rightarrow> nat \<Rightarrow> u8 list \<Rightarrow> nat \<Rightarrow> flash \<times> bool" where
  "flash_Write m location src sz =
     (if write_fails m \<or> length (cells m) < location + sz \<or> length src < sz then (m, False)
      else (m\<lparr>cells := take location (cells m) @ take sz src @ drop (location + sz) (cells m)\<rparr>,
            True))"

definition flash_Erase :: "u8 \<Rightarrow> flash \<Rightarrow> nat \<Rightarrow> nat \<Rightarrow> flash \<times> bool" where
  "flash_Erase fill m location sz =
     (if erase_fails m \<or> length (cells m) < location + sz then (m, False)
      else (m\<lparr>cells := take location (cells m) @ replicate sz fill @ drop (location + sz) (cells m)\<rparr>,
            True))"

definition flash_NVMem :: "nat \<Rightarrow> nat \<Rightarrow> nat \<Rightarrow> u8 \<Rightarrow> flash NVMem" where
  "flash_NVMem size_bytes erase_granularity write_granularity fill =
     \<lparr> kSize = size_bytes,
       kEraseGranularity = erase_granularity,
       kWriteGranularity = write_granularity,
       kFillByte = fill,
       Read = flash_Read,
       Writable = flash_Writable fill,
       Write = flash_Write,
       Erase = flash_Erase fill \<rparr>"

text \<open>
  A small configuration for concrete evaluation: a 15-byte region of three one-block
  pages (a one-byte record, so a block is five bytes), erased to \<open>0xFF\<close>, version 1.
\<close>

definition T3 :: "flash tparams" where
  "T3 = \<lparr> nvmem = flash_NVMem 15 5 1 0xFF, sizeof_TData = 1, datatype_version = 1,
          assert_fault_tolerant = True \<rparr>"

definition flash_ok :: "u8 list \<Rightarrow> flash" where
  "flash_ok bs = \<lparr> cells = bs, read_fails = False, write_fails = False, erase_fails = False \<rparr>"

definition fresh :: Persist where
  "fresh = \<lparr> block = \<lparr> data = [], sequence_n = 0, crc = 0, padding = [] \<rparr>,
            active_block_n = - 1, sequence = 0 \<rparr>"

text \<open>The template parameter \<open>NVMem\<close> is the simulated flash.\<close>

definition flash_driver :: "flash tparams \<Rightarrow> bool" where
  "flash_driver T \<longleftrightarrow>
     Read (nvmem T) = flash_Read \<and>
     Writable (nvmem T) = flash_Writable (kFillByte (nvmem T)) \<and>
     Write (nvmem T) = flash_Write \<and>
     Erase (nvmem T) = flash_Erase (kFillByte (nvmem T))"

text \<open>No hardware failure: the device holds the whole region and no operation fails.\<close>

definition healthy :: "flash tparams \<Rightarrow> flash \<Rightarrow> bool" where
  "healthy T m \<longleftrightarrow>
     read_fails m = False \<and> write_fails m = False \<and> erase_fails m = False \<and>
     length (cells m) = kSize (nvmem T)"

text \<open>
  The instance agrees with the media: the cached block is the block stored at
  \<open>active_block_n\<close>, it passes the CRC test, and it carries \<open>sequence\<close>. This is the
  state in which a successful \<open>Init\<close> leaves the instance.
\<close>

definition cache_coherent :: "'m tparams \<Rightarrow> Persist \<Rightarrow> 'm \<Rightarrow> bool" where
  "cache_coherent T p m \<longleftrightarrow>
     active_block_n p = - 1 \<or>
     (0 \<le> active_block_n p \<and> active_block_n p < int (kNumBlocks T) \<and>
      stored_block T m (nat (active_block_n p)) = Some (block p) \<and>
      block_valid T (block p) \<and> sequence_n (block p) = sequence p)"

text \<open>
  Block \<open>a\<close>, with sequence number \<open>s\<close>, is the newest of the region: every other
  stored block that passes the CRC test is older than \<open>s\<close> by less than \<open>kNumBlocks\<close>,
  modulo \<open>2 ^ 16\<close>.
\<close>

definition newest_on_media :: "'m tparams \<Rightarrow> 'm \<Rightarrow> int \<Rightarrow> u16 \<Rightarrow> bool" where
  "newest_on_media T m a s \<longleftrightarrow>
     (\<forall>j < kNumBlocks T. \<forall>b. int j \<noteq> a \<and> stored_block T m j = Some b \<and> block_valid T b \<longrightarrow>
        0 < unat (s - sequence_n b) \<and> unat (s - sequence_n b) < kNumBlocks T)"

text \<open>
  What block \<open>j\<close> of the region is to the class: writable (the driver's \<open>Writable\<close>
  holds of its range), or valid (it can be read and passes the CRC test of the scan),
  and the sequence number it carries.
\<close>

definition writable_at :: "'m tparams \<Rightarrow> 'm \<Rightarrow> nat \<Rightarrow> bool" where
  "writable_at T m j \<longleftrightarrow> snd (Writable (nvmem T) m (BlockLocation T j) (kBlockSize T))"

definition valid_at :: "'m tparams \<Rightarrow> 'm \<Rightarrow> nat \<Rightarrow> bool" where
  "valid_at T m j \<longleftrightarrow>
     (case stored_block T m j of None \<Rightarrow> False | Some b \<Rightarrow> block_valid T b)"

definition sequence_at :: "'m tparams \<Rightarrow> 'm \<Rightarrow> nat \<Rightarrow> u16" where
  "sequence_at T m j = (case stored_block T m j of None \<Rightarrow> 0 | Some b \<Rightarrow> sequence_n b)"

text \<open>How many sequence numbers block \<open>j\<close> is behind the instance, modulo \<open>2 ^ 16\<close>.\<close>

definition age :: "'m tparams \<Rightarrow> Persist \<Rightarrow> 'm \<Rightarrow> nat \<Rightarrow> nat" where
  "age T p m j = unat (sequence p - sequence_at T m j)"

text \<open>
  The number of steps that \<^verbatim>\<open>NextWritableBlock\<close> takes from block \<open>a\<close> to reach block
  \<open>j\<close>, going forward around the region of \<open>n\<close> blocks (\<open>n\<close> steps to come back to \<open>a\<close>);
  and the page of a block.
\<close>

definition fwd :: "nat \<Rightarrow> nat \<Rightarrow> nat \<Rightarrow> nat" where
  "fwd n a j = (if a < j then j - a else j + n - a)"

definition page_of :: "'m tparams \<Rightarrow> nat \<Rightarrow> nat" where
  "page_of T j = j div kBlocksPerPage T"

text \<open>A block of fill bytes, as an erase leaves it, and the parameters for which such
  a block does not pass the CRC test.\<close>

definition blank_block :: "'m tparams \<Rightarrow> Block" where
  "blank_block T = Block_of_bytes T (replicate (kBlockSize T) (kFillByte (nvmem T)))"

definition blank_invalid :: "'m tparams \<Rightarrow> bool" where
  "blank_invalid T \<longleftrightarrow> \<not> block_valid T (blank_block T)"

text \<open>
  The region as this class writes it. Either no block is active and no block of the
  region is valid; or, with \<open>a\<close> the active block: every other valid block \<open>j\<close> is older
  than the instance, by no more than the number of blocks from \<open>j\<close> forward to \<open>a\<close>
  (blocks are written going forward, each with the next sequence number), and does not
  follow \<open>a\<close> in the page of \<open>a\<close>; going forward from \<open>a\<close>, every writable block comes
  before every valid one; and within a page no valid block follows a writable one
  (a page is erased as a whole and then filled in order).
\<close>

definition ring_inv :: "'m tparams \<Rightarrow> Persist \<Rightarrow> 'm \<Rightarrow> bool" where
  "ring_inv T p m \<longleftrightarrow>
     (if active_block_n p = - 1 then (\<forall>j < kNumBlocks T. \<not> valid_at T m j)
      else 0 \<le> active_block_n p \<and> active_block_n p < int (kNumBlocks T) \<and>
        (\<forall>j < kNumBlocks T. valid_at T m j \<and> j \<noteq> nat (active_block_n p) \<longrightarrow>
           0 < age T p m j \<and>
           age T p m j + fwd (kNumBlocks T) (nat (active_block_n p)) j \<le> kNumBlocks T \<and>
           (page_of T j = page_of T (nat (active_block_n p)) \<longrightarrow> j < nat (active_block_n p)) \<and>
           (\<forall>k < kNumBlocks T. writable_at T m k \<longrightarrow>
              fwd (kNumBlocks T) (nat (active_block_n p)) k <
                fwd (kNumBlocks T) (nat (active_block_n p)) j \<and>
              (page_of T k = page_of T j \<longrightarrow> j < k))) \<and>
        (\<forall>k < kNumBlocks T. writable_at T m k \<and> page_of T k = page_of T (nat (active_block_n p)) \<longrightarrow>
           nat (active_block_n p) < k))"

text \<open>\<^verbatim>\<open>Save(d); Init(); Load(o)\<close>: the three results and the loaded record.\<close>

definition Save_Init_Load ::
  "'m tparams \<Rightarrow> Persist \<Rightarrow> 'm world \<Rightarrow> u8 list \<Rightarrow> u8 list \<Rightarrow>
     (Result \<times> Result \<times> Result \<times> u8 list) option" where
  "Save_Init_Load T p w d out =
     (case Save T p w d of
        None \<Rightarrow> None
      | Some (r1, p1, w1) \<Rightarrow>
          (case Init T p1 w1 of
             (r2, p2, w2) \<Rightarrow>
               (case Load T p2 out of (r3, loaded) \<Rightarrow> Some (r1, r2, r3, loaded))))"

definition flash_dev :: "u8 list \<Rightarrow> bool \<Rightarrow> bool \<Rightarrow> bool \<Rightarrow> flash" where
  "flash_dev bs rfail wfail efail =
     \<lparr> cells = bs, read_fails = rfail, write_fails = wfail, erase_fails = efail \<rparr>"

definition start :: "'m \<Rightarrow> 'm world" where
  "start m = \<lparr> dev = m, trace = [] \<rparr>"

text \<open>
  A configuration in which the cap of \<open>kNumBlocks\<close> applies: 480000 bytes in pages of
  24 bytes, three 8-byte blocks to the page (a four-byte record).
\<close>

definition T_capped :: "flash tparams" where
  "T_capped = \<lparr> nvmem = flash_NVMem 480000 24 1 0xFF, sizeof_TData = 4,
                datatype_version = 1, assert_fault_tolerant = True \<rparr>"

section \<open>The CRC: table lookup against the bitwise definition\<close>

lemma top_bit_test: "(x AND 0x8000 \<noteq> 0) = bit (x::u16) 15"
  using and_exp_eq_0_iff_not_bit[of x 15] by simp


lemma ref_bit_step_xor: "ref_bit_step (x XOR y) = ref_bit_step x XOR ref_bit_step y"
  by (cases "bit x 15"; cases "bit y 15")
     (simp_all add: ref_bit_step_def bit_xor_iff push_bit_xor ac_simps)

lemma funpow_ref_bit_step_xor:
  "(ref_bit_step ^^ n) (x XOR y) = (ref_bit_step ^^ n) x XOR (ref_bit_step ^^ n) y"
  by (induction n) (simp_all add: ref_bit_step_xor)

lemma funpow_ref_bit_step_small:
  "k \<le> 16 \<Longrightarrow> drop_bit (16 - k) x = 0 \<Longrightarrow> (ref_bit_step ^^ k) x = push_bit k x"
proof (induction k)
  case 0
  then show ?case by simp
next
  case (Suc k)
  have z: "drop_bit (15 - k) x = 0"
    using Suc.prems by simp
  have "\<not> bit x (15 - k)"
  proof -
    have "\<not> bit (drop_bit (15 - k) x) 0"
      by (simp add: z)
    then show ?thesis
      by (simp add: bit_drop_bit_eq)
  qed
  moreover have "drop_bit (16 - k) x = 0"
  proof -
    have e: "16 - k = Suc (15 - k)"
      using Suc.prems by simp
    have "drop_bit (Suc (15 - k)) x = drop_bit 1 (drop_bit (15 - k) x)"
      by (simp add: drop_bit_drop_bit)
    also have "\<dots> = 0"
      by (simp only: z) simp
    finally show ?thesis
      by (simp only: e)
  qed
  ultimately show ?case
    using Suc by (simp add: ref_bit_step_def bit_push_bit_iff push_bit_push_bit)
qed


lemma table_nth:
  "i < 16 \<Longrightarrow> ltable ! i = ComputeTableEntry (of_nat i)"
  "i < 16 \<Longrightarrow> htable ! i = ComputeTableEntry (push_bit 4 (of_nat i))"
  by (simp_all add: ltable_def htable_def)

lemma crc_shift_ref: "crc_shift = ref_bit_step"
  by (rule ext) (simp add: crc_shift_def ref_bit_step_def top_bit_test kPolynomial_def)


lemma nibble_bounds:
  "unat ((index::u8) AND 0xF) < 16" "unat (drop_bit 4 (index::u8)) < 16"
proof -
  have "unat (index AND 0xF) \<le> unat (0xF :: u8)"
    by (rule word_and_le1 [THEN word_le_nat_alt [THEN iffD1]])
  then show "unat (index AND 0xF) < 16" by simp
  have "unat index < 256"
    using unsigned_less [of index] by simp
  then show "unat (drop_bit 4 index) < 16"
    by (simp add: drop_bit_eq_div unat_div)
qed

lemma low_nibble_mask: "(index::u8) AND 0xF = take_bit 4 index"
proof -
  have "(0xF :: u8) = mask 4"
    by (simp add: mask_eq_exp_minus_1)
  then show ?thesis
    by (simp add: take_bit_eq_mask)
qed

lemma index_split:
  "(ucast (index::u8) :: u16) = ucast (index AND 0xF) XOR push_bit 4 (ucast (drop_bit 4 index))"
  unfolding low_nibble_mask
  by (rule bit_word_eqI) (auto simp: bit_simps)

lemma table_lookup:
  "ltable ! unat (index AND 0xF) XOR htable ! unat (drop_bit 4 index)
     = (ref_bit_step ^^ 8) (push_bit 8 (ucast (index::u8)))"
proof -
  have l: "ltable ! unat (index AND 0xF) = (ref_bit_step ^^ 8) (push_bit 8 (ucast (index AND 0xF)))"
    by (simp add: table_nth nibble_bounds ComputeTableEntry_def crc_shift_ref)
  have h: "htable ! unat (drop_bit 4 index)
      = (ref_bit_step ^^ 8) (push_bit 8 (push_bit 4 (ucast (drop_bit 4 index))))"
    by (simp add: table_nth nibble_bounds ComputeTableEntry_def crc_shift_ref)
  show ?thesis
    unfolding l h
    by (simp only: index_split [of index] push_bit_xor funpow_ref_bit_step_xor)
qed

lemma byte_step_split:
  "c XOR push_bit 8 (ucast (b::u8)) =
     push_bit 8 (ucast (ucast (drop_bit 8 c) XOR b :: u8)) XOR take_bit 8 (c::u16)"
  by (rule bit_word_eqI) (auto simp: bit_simps)

lemma ref_byte_step_table:
  "ref_byte_step c b =
     (let index = (ucast (drop_bit 8 c) XOR b :: u8)
      in push_bit 8 c XOR ltable ! unat (index AND 0xF) XOR htable ! unat (drop_bit 4 index))"
proof -
  define index where "index = (ucast (drop_bit 8 c) XOR b :: u8)"
  have "(ref_bit_step ^^ 8) (take_bit 8 c) = push_bit 8 (take_bit 8 c)"
    by (rule funpow_ref_bit_step_small) (simp_all add: drop_bit_take_bit)
  also have "\<dots> = push_bit 8 c"
    by (rule bit_word_eqI) (auto simp: bit_simps)
  finally have low: "(ref_bit_step ^^ 8) (take_bit 8 c) = push_bit 8 c" .
  have "ref_byte_step c b = (ref_bit_step ^^ 8) (push_bit 8 (ucast index) XOR take_bit 8 c)"
    by (simp only: ref_byte_step_def byte_step_split [of c b] index_def)
  also have "\<dots> = (ref_bit_step ^^ 8) (push_bit 8 (ucast index)) XOR push_bit 8 c"
    by (simp only: funpow_ref_bit_step_xor low)
  also have "\<dots> = push_bit 8 c XOR ltable ! unat (index AND 0xF) XOR htable ! unat (drop_bit 4 index)"
    by (simp only: table_lookup [symmetric] ac_simps)
  finally show ?thesis
    by (simp only: Let_def index_def)
qed

lemma Process_crc16_reference: "Process seed bytes = crc16_reference seed bytes"
  by (induction bytes arbitrary: seed) (simp_all add: ref_byte_step_table Let_def)

text \<open>
  Claim C9. For every 16-bit seed and every byte sequence, \<open>Process\<close> with its two
  nibble tables computes the value of the bitwise CRC-16 of the specification
  (polynomial \<open>0x1021\<close>, most significant bit first, no reflection, no final XOR),
  run byte by byte from that seed.
\<close>

theorem Process_refines_reference:
  "Process seed bytes = crc16_reference seed bytes"
  by (rule Process_crc16_reference)

section \<open>Region geometry\<close>

lemma geom_BlockSize:
  assumes "geometry_ok T"
  shows "kBlockSize T = sizeof_TData T + 4 + kBlockPaddingSize T" and "5 \<le> kBlockSize T"
proof -
  from assms have lt: "sizeof_TData T + 2 + 2 + kBlockPaddingSize T < 2 ^ 32" and pos: "0 < sizeof_TData T"
    by (simp_all add: geometry_ok_def)
  from lt show "kBlockSize T = sizeof_TData T + 4 + kBlockPaddingSize T"
    by (simp add: kBlockSize_def)
  with pos show "5 \<le> kBlockSize T" by simp
qed

lemma geom_per_page:
  "kBlocksPerPage T * kBlockSize T \<le> kPageSize T"
  by (simp add: kBlocksPerPage_def)

lemma geom_PageSize:
  assumes "geometry_ok T"
  shows "0 < kPageSize T" and "kPageSize T < 2 ^ 32" and "kBlocksPerPage T \<le> kPageSize T"
    and "kBlocksPerPage T * 5 \<le> kPageSize T"
proof -
  from assms have bpp: "0 < kBlocksPerPage T" by (simp add: geometry_ok_def)
  have "kBlocksPerPage T * 5 \<le> kBlocksPerPage T * kBlockSize T"
    by (rule mult_le_mono2) (rule geom_BlockSize(2) [OF assms])
  then show 5: "kBlocksPerPage T * 5 \<le> kPageSize T"
    using geom_per_page [of T] by linarith
  with bpp show "0 < kPageSize T" by simp
  show "kPageSize T < 2 ^ 32" by (simp add: kPageSize_def)
  from 5 show "kBlocksPerPage T \<le> kPageSize T" by simp
qed

lemma geom_NumBlocks:
  assumes "geometry_ok T"
  shows "kNumBlocks T = min (kSize (nvmem T) div kPageSize T * kBlocksPerPage T) (2 ^ 15)"
proof -
  have "kSize (nvmem T) div kPageSize T * kBlocksPerPage T
          \<le> kSize (nvmem T) div kPageSize T * kPageSize T"
    using geom_PageSize(3) [OF assms] by simp
  also have "\<dots> \<le> kSize (nvmem T)" by simp
  also have "\<dots> < 2 ^ 32" using assms by (simp add: geometry_ok_def)
  finally show ?thesis by (simp add: kNumBlocks_def)
qed

lemma geom_NumPages:
  assumes "geometry_ok T"
  shows "kNumPages T = (kNumBlocks T + kBlocksPerPage T - 1) div kBlocksPerPage T"
proof -
  have "kNumBlocks T \<le> 2 ^ 15" by (simp add: kNumBlocks_def)
  moreover have "kBlocksPerPage T * 5 < 2 ^ 32"
    using geom_PageSize(2,4) [OF assms] by simp
  ultimately have "kNumBlocks T + kBlocksPerPage T - 1 < 2 ^ 32" by simp
  then show ?thesis by (simp add: kNumPages_def)
qed

lemma ceil_div_exact:
  fixes q b :: nat
  assumes "0 < b"
  shows "(q * b + b - 1) div b = q"
proof -
  have "q * b + b - 1 = (b - 1) + q * b" using assms by simp
  then have "(q * b + b - 1) div b = (b - 1 + q * b) div b" by (simp only:)
  also have "\<dots> = q + (b - 1) div b"
    by (rule div_mult_self1) (use assms in simp)
  also have "(b - 1) div b = 0" using assms by simp
  finally show ?thesis by simp
qed

lemma ceil_div_bounds:
  fixes n b :: nat
  assumes "0 < b"
  shows "n \<le> (n + b - 1) div b * b" and "0 < n \<Longrightarrow> ((n + b - 1) div b - 1) * b < n"
proof -
  define m where "m = n + b - 1"
  have split: "m = m div b * b + m mod b" by simp
  have r: "m mod b \<le> b - 1" using assms
    by (metis Suc_pred' less_Suc_eq_le mod_less_divisor)
  have "n + (b - 1) = m" using assms by (simp add: m_def)
  with split r show "n \<le> (n + b - 1) div b * b"
    unfolding m_def [symmetric] by linarith
  assume "0 < n"
  have "m div b * b \<le> m" by simp
  moreover have "(m div b - 1) * b = m div b * b - b"
    by (simp add: diff_mult_distrib)
  ultimately show "((n + b - 1) div b - 1) * b < n"
    unfolding m_def [symmetric] using \<open>n + (b - 1) = m\<close> \<open>0 < n\<close> assms by linarith
qed

lemma geom_NumPages_uncapped:
  assumes "geometry_ok T"
    and "kSize (nvmem T) div kPageSize T * kBlocksPerPage T \<le> 2 ^ 15"
  shows "kNumPages T = kSize (nvmem T) div kPageSize T"
    and "kNumBlocks T = kNumPages T * kBlocksPerPage T"
proof -
  from assms(1) have bpp: "0 < kBlocksPerPage T" by (simp add: geometry_ok_def)
  from assms(2) have n: "kNumBlocks T = kSize (nvmem T) div kPageSize T * kBlocksPerPage T"
    by (simp add: geom_NumBlocks [OF assms(1)])
  show "kNumPages T = kSize (nvmem T) div kPageSize T"
    unfolding geom_NumPages [OF assms(1)] n by (rule ceil_div_exact [OF bpp])
  then show "kNumBlocks T = kNumPages T * kBlocksPerPage T" using n by simp
qed

lemma geom_NumBlocks_le:
  assumes "geometry_ok T"
  shows "kNumBlocks T \<le> kNumPages T * kBlocksPerPage T"
    and "kNumPages T \<le> kSize (nvmem T) div kPageSize T"
    and "(kNumPages T - 1) * kBlocksPerPage T < kNumBlocks T"
proof -
  from assms have bpp: "0 < kBlocksPerPage T" and n: "0 < kNumBlocks T"
    by (simp_all add: geometry_ok_def)
  show "kNumBlocks T \<le> kNumPages T * kBlocksPerPage T"
    unfolding geom_NumPages [OF assms] by (rule ceil_div_bounds(1) [OF bpp])
  show "(kNumPages T - 1) * kBlocksPerPage T < kNumBlocks T"
    unfolding geom_NumPages [OF assms] by (rule ceil_div_bounds(2) [OF bpp n])
  have "kNumBlocks T \<le> kSize (nvmem T) div kPageSize T * kBlocksPerPage T"
    by (simp add: geom_NumBlocks [OF assms])
  then have "kNumBlocks T + kBlocksPerPage T - 1
      \<le> kSize (nvmem T) div kPageSize T * kBlocksPerPage T + kBlocksPerPage T - 1"
    by simp
  then have "kNumPages T
      \<le> (kSize (nvmem T) div kPageSize T * kBlocksPerPage T + kBlocksPerPage T - 1)
           div kBlocksPerPage T"
    unfolding geom_NumPages [OF assms] by (rule div_le_mono)
  then show "kNumPages T \<le> kSize (nvmem T) div kPageSize T"
    by (simp only: ceil_div_exact [OF bpp])
qed

lemma geom_region:
  assumes "geometry_ok T"
  shows "kNumPages T * kPageSize T \<le> kSize (nvmem T)"
proof -
  have "kNumPages T * kPageSize T \<le> kSize (nvmem T) div kPageSize T * kPageSize T"
    by (rule mult_le_mono1) (rule geom_NumBlocks_le(2) [OF assms])
  also have "\<dots> \<le> kSize (nvmem T)" by simp
  finally show ?thesis .
qed

lemma geom_BlockLocation:
  assumes "geometry_ok T" and "n < kNumBlocks T"
  shows "BlockLocation T n =
           n div kBlocksPerPage T * kPageSize T + n mod kBlocksPerPage T * kBlockSize T"
    and "n div kBlocksPerPage T * kPageSize T \<le> BlockLocation T n"
    and "BlockLocation T n + kBlockSize T \<le> (n div kBlocksPerPage T + 1) * kPageSize T"
    and "n div kBlocksPerPage T < kNumPages T"
    and "BlockLocation T n + kBlockSize T \<le> kSize (nvmem T)"
proof -
  let ?b = "kBlocksPerPage T" and ?PS = "kPageSize T" and ?BS = "kBlockSize T"
  from assms(1) have bpp: "0 < ?b" by (simp add: geometry_ok_def)
  have page: "n div ?b < kNumPages T"
  proof -
    have "n < kNumPages T * ?b"
      using assms(2) geom_NumBlocks_le(1) [OF assms(1)] by simp
    then show ?thesis using bpp
      by (simp add: div_less_iff_less_mult)
  qed
  have "Suc (n mod ?b) \<le> ?b" using bpp by (simp add: Suc_le_eq)
  then have "Suc (n mod ?b) * ?BS \<le> ?b * ?BS" by (rule mult_le_mono1)
  then have in_page: "n mod ?b * ?BS + ?BS \<le> ?PS"
    using geom_per_page [of T] by simp
  have "(n div ?b + 1) * ?PS \<le> kNumPages T * ?PS"
    using page by (intro mult_le_mono1) simp
  then have top: "(n div ?b + 1) * ?PS \<le> kSize (nvmem T)"
    using geom_region [OF assms(1)] by simp
  have size: "kSize (nvmem T) < 2 ^ 32" using assms(1) by (simp add: geometry_ok_def)
  have sub: "n - n div ?b * ?b = n mod ?b"
    by (simp add: minus_div_mult_eq_mod)
  have "n div ?b * ?PS + n mod ?b * ?BS < 2 ^ 32"
    using in_page top size by (simp add: algebra_simps)
  then show loc: "BlockLocation T n = n div ?b * ?PS + n mod ?b * ?BS"
    by (simp add: BlockLocation_def Let_def sub)
  then show "n div ?b * ?PS \<le> BlockLocation T n" by simp
  from loc in_page show in': "BlockLocation T n + ?BS \<le> (n div ?b + 1) * ?PS"
    by (simp add: algebra_simps)
  from page show "n div ?b < kNumPages T" .
  from in' top show "BlockLocation T n + ?BS \<le> kSize (nvmem T)" by simp
qed


subsection \<open>The concrete configurations\<close>

lemma T3_fields:
  "sizeof_TData T3 = 1" "datatype_version T3 = 1"
  "Read (nvmem T3) = flash_Read" "Writable (nvmem T3) = flash_Writable 0xFF"
  "Write (nvmem T3) = flash_Write" "Erase (nvmem T3) = flash_Erase 0xFF"
  "kFillByte (nvmem T3) = 0xFF" "kSize (nvmem T3) = 15"
  by (simp_all add: T3_def flash_NVMem_def)

lemma T3_geometry:
  "kBlockPaddingSize T3 = 0" "kBlockSize T3 = 5" "kPageSize T3 = 5"
  "kBlocksPerPage T3 = 1" "kNumBlocks T3 = 3" "kNumPages T3 = 3"
  by (simp_all add: kBlockPaddingSize_def kBlockSize_def kPageSize_def kBlocksPerPage_def
      kNumBlocks_def kNumPages_def PadSize_def T3_def flash_NVMem_def)

lemma T3_ok: "geometry_ok T3"
  by (simp add: geometry_ok_def T3_geometry) (simp add: T3_def flash_NVMem_def)

lemma T_capped_geometry:
  "kBlockPaddingSize T_capped = 0" "kBlockSize T_capped = 8" "kPageSize T_capped = 24"
  "kBlocksPerPage T_capped = 3" "kNumBlocks T_capped = 32768" "kNumPages T_capped = 10923"
  "kSize (nvmem T_capped) = 480000"
  by (simp_all add: kBlockPaddingSize_def kBlockSize_def kPageSize_def kBlocksPerPage_def
      kNumBlocks_def kNumPages_def PadSize_def T_capped_def flash_NVMem_def)

lemma T_capped_ok: "geometry_ok T_capped"
  by (simp add: geometry_ok_def T_capped_geometry) (simp add: T_capped_def flash_NVMem_def)

subsection \<open>Claim C8\<close>

text \<open>
  Claim C8 as stated: for every accepted geometry \<open>kNumPages = kSize div kPageSize\<close>
  and \<open>kNumBlocks = kNumPages * kBlocksPerPage\<close>. Both equations fail for
  \<open>T_capped\<close>, an accepted geometry: the region holds 20000 pages and 60000 blocks,
  the cap leaves 32768 blocks, and the 10923 pages that hold them have room for 32769.
\<close>

theorem region_constants_counterexample:
  "geometry_ok T_capped \<and>
   kNumPages T_capped \<noteq> kSize (nvmem T_capped) div kPageSize T_capped \<and>
   kNumBlocks T_capped \<noteq> kNumPages T_capped * kBlocksPerPage T_capped"
  by (simp add: T_capped_ok T_capped_geometry)

text \<open>
  Claim C8, amended. For every accepted geometry \<open>kNumBlocks\<close> is the number of blocks
  in the whole pages of the region, \<open>(kSize div kPageSize) * kBlocksPerPage\<close>, capped
  at \<open>2 ^ 15\<close>, and \<open>kNumPages\<close> is the number of pages needed to hold \<open>kNumBlocks\<close>
  blocks, \<open>kNumBlocks / kBlocksPerPage\<close> rounded up. Whenever the cap does not apply,
  \<open>kNumPages = kSize div kPageSize\<close> and \<open>kNumBlocks = kNumPages * kBlocksPerPage\<close>.
\<close>

theorem region_constants:
  assumes "geometry_ok T"
  shows "kNumBlocks T = min (kSize (nvmem T) div kPageSize T * kBlocksPerPage T) (2 ^ 15) \<and>
         kNumPages T = (kNumBlocks T + kBlocksPerPage T - 1) div kBlocksPerPage T \<and>
         (kSize (nvmem T) div kPageSize T * kBlocksPerPage T \<le> 2 ^ 15 \<longrightarrow>
            kNumPages T = kSize (nvmem T) div kPageSize T \<and>
            kNumBlocks T = kNumPages T * kBlocksPerPage T)"
  using geom_NumBlocks [OF assms] geom_NumPages [OF assms] geom_NumPages_uncapped [OF assms]
  by blast

theorem region_constants_witness:
  "geometry_ok T3 \<and>
   kSize (nvmem T3) div kPageSize T3 * kBlocksPerPage T3 \<le> 2 ^ 15 \<and>
   kNumBlocks T3 = min (kSize (nvmem T3) div kPageSize T3 * kBlocksPerPage T3) (2 ^ 15) \<and>
   kNumPages T3 = kSize (nvmem T3) div kPageSize T3 \<and>
   kNumBlocks T3 = kNumPages T3 * kBlocksPerPage T3 \<and>
   kNumPages T3 = 3 \<and> kNumBlocks T3 = 3"
  using region_constants [OF T3_ok] T3_ok
  by (simp add: T3_geometry T3_fields)

section \<open>The sequence comparison\<close>

lemma unat_sub_cases:
  fixes a b :: u16
  shows "int (unat (a - b)) =
           (if uint b \<le> uint a then uint a - uint b else uint a - uint b + 65536)"
  by (simp add: uint_sub_if')

lemma kNumBlocks_le: "kNumBlocks T \<le> 2 ^ 15"
  by (simp add: kNumBlocks_def)

lemma sequence_newer_in_window:
  fixes a b :: u16
  assumes "0 < n" and "n \<le> 2 ^ 15"
    and "unat (a - b) < n \<or> 2 ^ 16 - n < unat (a - b)"
  shows "sequence_newer (int n) a b \<longleftrightarrow> 0 < unat (a - b) \<and> unat (a - b) < n"
proof -
  define d where "d = unat (a - b)"
  define x where "x = uint a"
  define y where "y = uint b"
  have x: "0 \<le> x" "x < 65536" and y: "0 \<le> y" "y < 65536"
    using uint_bounded [of a] uint_bounded [of b] by (simp_all add: x_def y_def)
  have d: "int d = (if y \<le> x then x - y else x - y + 65536)"
    unfolding d_def x_def y_def by (rule unat_sub_cases)
  from assms(2,3) have w: "int d < int n \<or> 65536 - int n < int d"
    unfolding d_def [symmetric] by auto
  have n: "0 < int n" "int n \<le> 32768" using assms(1,2) by simp_all
  have "(x > y \<and> x - y < int n \<or> x < y \<and> y - x \<ge> int n) \<longleftrightarrow> 0 < int d \<and> int d < int n"
    using x y w n unfolding d by (auto split: if_splits)
  then have "sequence_newer (int n) a b \<longleftrightarrow> 0 < d \<and> d < n"
    unfolding sequence_newer_def x_def y_def by simp
  then show ?thesis unfolding d_def .
qed

subsection \<open>Claim C2\<close>

text \<open>
  Claim C2 as stated: for all sequence values \<open>a\<close> and \<open>b\<close> the acceptance test of the
  scan holds exactly when \<open>(a - b) mod 2 ^ 16\<close> lies in \<open>(0, kNumBlocks]\<close>. With the
  three blocks of \<open>T3\<close> it fails at both ends: for \<open>a = 3\<close>, \<open>b = 0\<close> the difference
  is \<open>kNumBlocks\<close> and the test rejects; for \<open>a = 0\<close>, \<open>b = 65526\<close> the difference is
  10 and the test accepts.
\<close>

theorem sequence_newer_counterexample:
  "\<not> (sequence_newer (int (kNumBlocks T3)) 3 0 \<longleftrightarrow>
        0 < unat (3 - 0 :: u16) \<and> unat (3 - 0 :: u16) \<le> kNumBlocks T3) \<and>
   \<not> (sequence_newer (int (kNumBlocks T3)) 0 65526 \<longleftrightarrow>
        0 < unat (0 - 65526 :: u16) \<and> unat (0 - 65526 :: u16) \<le> kNumBlocks T3)"
  by (simp add: sequence_newer_def T3_geometry)

text \<open>
  Claim C2, amended. For two sequence values that lie within \<open>kNumBlocks\<close> of each other
  around the circle of 16-bit values (\<open>(a - b) mod 2 ^ 16\<close> is below \<open>kNumBlocks\<close> or
  above \<open>2 ^ 16 - kNumBlocks\<close>), as the sequence numbers of the blocks of one region
  do, the acceptance test of the scan holds exactly when \<open>(a - b) mod 2 ^ 16\<close> lies in
  \<open>(0, kNumBlocks)\<close>.
\<close>

theorem sequence_newer_window:
  fixes a b :: u16
  assumes "0 < kNumBlocks T"
    and "unat (a - b) < kNumBlocks T \<or> 2 ^ 16 - kNumBlocks T < unat (a - b)"
  shows "sequence_newer (int (kNumBlocks T)) a b \<longleftrightarrow>
           0 < unat (a - b) \<and> unat (a - b) < kNumBlocks T"
  using assms(1) kNumBlocks_le assms(2) by (rule sequence_newer_in_window)

theorem sequence_newer_window_witness:
  "0 < kNumBlocks T3 \<and>
   unat (7 - 5 :: u16) < kNumBlocks T3 \<and> sequence_newer (int (kNumBlocks T3)) 7 5 \<and>
   2 ^ 16 - kNumBlocks T3 < unat (5 - 7 :: u16) \<and> \<not> sequence_newer (int (kNumBlocks T3)) 5 7 \<and>
   unat (1 - 65535 :: u16) < kNumBlocks T3 \<and> sequence_newer (int (kNumBlocks T3)) 1 65535"
  using sequence_newer_window [of T3 7 5] sequence_newer_window [of T3 5 7]
    sequence_newer_window [of T3 1 65535]
  by (simp add: T3_geometry)

section \<open>The driver calls of Reset and NextWritableBlock\<close>

lemma nvmem_trace:
  "trace (fst (nvmem_Read T w l n)) = trace w @ [OpRead l n]"
  "trace (fst (nvmem_Writable T w l n)) = trace w @ [OpWritable l n]"
  "trace (fst (nvmem_Write T w l src n)) = trace w @ [OpWrite l src n]"
  "trace (fst (nvmem_Erase T w l n)) = trace w @ [OpErase l n]"
  by (simp_all add: nvmem_Read_def nvmem_Writable_def nvmem_Write_def nvmem_Erase_def
      split: prod.split)

lemma Reset_scan_trace:
  "Reset_scan T idxs p w = (ok, p', w') \<Longrightarrow>
     \<exists>ops. trace w' = trace w @ ops \<and> list_all is_read ops"
proof (induction idxs arbitrary: p w)
  case Nil
  then show ?case by simp
next
  case (Cons i rest)
  obtain w1 r where rd: "nvmem_Read T w (BlockLocation T i) (kBlockSize T) = (w1, r)"
    by (cases "nvmem_Read T w (BlockLocation T i) (kBlockSize T)")
  have t1: "trace w1 = trace w @ [OpRead (BlockLocation T i) (kBlockSize T)]"
    using nvmem_trace(1) [of T w "BlockLocation T i" "kBlockSize T"] rd by simp
  show ?case
  proof (cases r)
    case None
    with Cons.prems rd t1 show ?thesis by (auto simp: Let_def)
  next
    case (Some bytes)
    with Cons.prems rd obtain p2 where "Reset_scan T rest p2 w1 = (ok, p', w')"
      by (auto simp: Let_def)
    from Cons.IH [OF this] obtain ops where "trace w' = trace w1 @ ops" "list_all is_read ops"
      by blast
    with t1 show ?thesis by auto
  qed
qed


lemma Reset_trace:
  assumes "Reset T p w = (r, p', w')"
  shows "\<exists>ops. trace w' = trace w @ ops \<and> list_all is_read ops"
proof -
  obtain ok p1 w1 where sc:
    "Reset_scan T [0..<kNumBlocks T] (p\<lparr>sequence := 0, active_block_n := - 1\<rparr>) w = (ok, p1, w1)"
    by (cases "Reset_scan T [0..<kNumBlocks T] (p\<lparr>sequence := 0, active_block_n := - 1\<rparr>) w")
  from Reset_scan_trace [OF sc] obtain ops where
    ops: "trace w1 = trace w @ ops" "list_all is_read ops" by blast
  show ?thesis
  proof (cases "ok \<and> active_block_n p1 \<noteq> - 1")
    case False
    with assms sc have "w' = w1" by (auto simp: Reset_def Let_def split: bool.splits)
    with ops show ?thesis by blast
  next
    case True
    let ?loc = "BlockLocation T (u32 (active_block_n p1))"
    from True assms sc have "w' = fst (nvmem_Read T w1 ?loc (kBlockSize T))"
      by (auto simp: Reset_def Let_def split: prod.splits option.splits bool.splits)
    then have "trace w' = trace w @ (ops @ [OpRead ?loc (kBlockSize T)])"
      using ops(1) by (simp add: nvmem_trace)
    moreover have "list_all is_read (ops @ [OpRead ?loc (kBlockSize T)])"
      using ops(2) by simp
    ultimately show ?thesis by blast
  qed
qed

lemma u32_small: "0 \<le> i \<Longrightarrow> i < 2 ^ 32 \<Longrightarrow> u32 i = nat i"
  by (simp add: u32_def)

lemma NextWritableBlock_loop_result:
  assumes "NextWritableBlock_loop T cur nxt w = Some y"
  shows "0 < kNumBlocks T \<longrightarrow>
         0 \<le> fst y \<and> fst y < int (kNumBlocks T) \<and>
         (\<exists>ops. trace (snd y) = trace w @ ops \<and> list_all is_probe ops)"
proof (rule NextWritableBlock_loop.raw_induct
    [where P = "\<lambda>T c n w y. 0 < kNumBlocks T \<longrightarrow>
         0 \<le> fst y \<and> fst y < int (kNumBlocks T) \<and>
         (\<exists>ops. trace (snd y) = trace w @ ops \<and> list_all is_probe ops)", OF _ assms])
  fix loop :: "'a tparams \<Rightarrow> int \<Rightarrow> int \<Rightarrow> 'a world \<Rightarrow> (int \<times> 'a world) option"
  fix T c n w y
  assume IH: "\<And>T c n w y. loop T c n w = Some y \<Longrightarrow>
      0 < kNumBlocks T \<longrightarrow>
         0 \<le> fst y \<and> fst y < int (kNumBlocks T) \<and>
         (\<exists>ops. trace (snd y) = trace w @ ops \<and> list_all is_probe ops)"
  assume eq: "(let next_block_n' = int (u32 (n + 1) mod kNumBlocks T)
      in case nvmem_Writable T w (BlockLocation T (u32 next_block_n')) (kBlockSize T) of
         (w', writable) \<Rightarrow>
           if writable then Some (next_block_n', w')
           else if next_block_n' \<noteq> c then loop T c next_block_n' w'
                else Some (next_block_n', w')) = Some y"
  define n' where "n' = int (u32 (n + 1) mod kNumBlocks T)"
  obtain w1 wr where pr:
    "nvmem_Writable T w (BlockLocation T (u32 n')) (kBlockSize T) = (w1, wr)"
    by (cases "nvmem_Writable T w (BlockLocation T (u32 n')) (kBlockSize T)")
  have t1: "trace w1 = trace w @ [OpWritable (BlockLocation T (u32 n')) (kBlockSize T)]"
    using nvmem_trace(2) [of T w "BlockLocation T (u32 n')" "kBlockSize T"] pr by simp
  show "0 < kNumBlocks T \<longrightarrow>
         0 \<le> fst y \<and> fst y < int (kNumBlocks T) \<and>
         (\<exists>ops. trace (snd y) = trace w @ ops \<and> list_all is_probe ops)"
  proof
    assume pos: "0 < kNumBlocks T"
    then have rng: "0 \<le> n'" "n' < int (kNumBlocks T)"
      by (simp_all add: n'_def)
    show "0 \<le> fst y \<and> fst y < int (kNumBlocks T) \<and>
         (\<exists>ops. trace (snd y) = trace w @ ops \<and> list_all is_probe ops)"
    proof (cases "wr \<or> n' = c")
      case True
      with eq pr have "y = (n', w1)"
        by (auto simp: Let_def n'_def [symmetric] split: if_splits)
      with rng t1 show ?thesis by simp
    next
      case False
      with eq pr have "loop T c n' w1 = Some y"
        by (auto simp: Let_def n'_def [symmetric])
      from IH [OF this] pos t1 show ?thesis by auto
    qed
  qed
qed

lemma NextWritableBlock_loop_terminates:
  assumes "0 < kNumBlocks T" and "0 \<le> cur" and "cur < int (kNumBlocks T)"
    and "0 \<le> nxt" and "nxt < int (kNumBlocks T)"
  shows "\<exists>y. NextWritableBlock_loop T cur nxt w = Some y"
  using assms(4,5)
proof (induction "nat (if nxt < cur then cur - nxt - 1 else cur + int (kNumBlocks T) - nxt - 1)"
    arbitrary: nxt w rule: less_induct)
  case less
  let ?N = "int (kNumBlocks T)"
  define n' where "n' = int (u32 (nxt + 1) mod kNumBlocks T)"
  have "kNumBlocks T \<le> 2 ^ 15" by (simp add: kNumBlocks_def)
  then have "nxt + 1 < 2 ^ 32" using less.prems by simp
  then have "u32 (nxt + 1) = nat (nxt + 1)"
    using less.prems by (simp add: u32_small)
  then have n'_eq: "n' = (nxt + 1) mod ?N"
    using less.prems by (simp add: n'_def zmod_int)
  have n'_cases: "n' = (if nxt + 1 < ?N then nxt + 1 else 0)"
  proof (cases "nxt + 1 < ?N")
    case True
    then show ?thesis using less.prems unfolding n'_eq by simp
  next
    case False
    then have "nxt + 1 = ?N" using less.prems by linarith
    then show ?thesis unfolding n'_eq by simp
  qed
  obtain w1 wr where pr:
    "nvmem_Writable T w (BlockLocation T (u32 n')) (kBlockSize T) = (w1, wr)"
    by (cases "nvmem_Writable T w (BlockLocation T (u32 n')) (kBlockSize T)")
  show ?case
  proof (cases "wr \<or> n' = cur")
    case True
    then show ?thesis
      by (subst NextWritableBlock_loop.simps) (auto simp: Let_def n'_def [symmetric] pr)
  next
    case False
    have rng: "0 \<le> n'" "n' < ?N" using less.prems n'_cases by (auto split: if_splits)
    have "nat (if n' < cur then cur - n' - 1 else cur + ?N - n' - 1)
        < nat (if nxt < cur then cur - nxt - 1 else cur + ?N - nxt - 1)"
      using False less.prems assms(2,3) n'_cases by (auto split: if_splits)
    from less.hyps [OF this rng] obtain y where "NextWritableBlock_loop T cur n' w1 = Some y"
      by blast
    with False show ?thesis
      by (subst NextWritableBlock_loop.simps) (auto simp: Let_def n'_def [symmetric] pr)
  qed
qed

lemma NextWritableBlock_result:
  assumes "NextWritableBlock T a w = Some (n, w')" and "0 < kNumBlocks T"
  shows "(n = - 1 \<or> (0 \<le> n \<and> n < int (kNumBlocks T) \<and> n \<noteq> a)) \<and>
         (\<exists>ops. trace w' = trace w @ ops \<and> list_all is_probe ops)"
proof -
  define c where "c = (if a = - 1 then int (kNumBlocks T) - 1 else a)"
  from assms(1) obtain y where y: "NextWritableBlock_loop T c c w = Some y"
    and n: "n = (if fst y = c then - 1 else fst y)" and w': "w' = snd y"
    by (auto simp: NextWritableBlock_def Let_def c_def [symmetric] split: option.splits prod.splits)
  from NextWritableBlock_loop_result [OF y] assms(2)
  have r: "0 \<le> fst y" "fst y < int (kNumBlocks T)"
    and t: "\<exists>ops. trace (snd y) = trace w @ ops \<and> list_all is_probe ops"
    by simp_all
  have "n = - 1 \<or> (0 \<le> n \<and> n < int (kNumBlocks T) \<and> n \<noteq> a)"
    using n r by (auto simp: c_def split: if_splits)
  with t w' show ?thesis by simp
qed

lemma NextWritableBlock_terminates:
  assumes "0 < kNumBlocks T" and "active_in_range T p"
  shows "\<exists>y. NextWritableBlock T (active_block_n p) w = Some y"
proof -
  define c where "c = (if active_block_n p = - 1 then int (kNumBlocks T) - 1 else active_block_n p)"
  have "0 \<le> c" "c < int (kNumBlocks T)"
    using assms by (auto simp: c_def active_in_range_def)
  from NextWritableBlock_loop_terminates [OF assms(1) this this]
  obtain y where "NextWritableBlock_loop T c c w = Some y" by blast
  then show ?thesis
    by (simp add: NextWritableBlock_def Let_def c_def [symmetric] split: prod.splits)
qed


section \<open>The shape of Save\<close>

lemma Save_encode_fields:
  "active_block_n (Save_encode T p n d) = n"
  "sequence (Save_encode T p n d) = sequence p"
  "data (block (Save_encode T p n d)) = take (sizeof_TData T) d"
  "sequence_n (block (Save_encode T p n d)) = sequence p"
  "padding (block (Save_encode T p n d)) = replicate (kBlockPaddingSize T) (kFillByte (nvmem T))"
  by (simp_all add: Save_encode_def Let_def)

lemma Save_write_shape:
  assumes "Save_write T q w n d = (r, p', w')"
  shows "\<exists>reads. trace w' = trace w @
            OpWrite (BlockLocation T (u32 n)) (Block_bytes (block (Save_encode T q n d)))
              (kBlockSize T) # reads \<and>
          list_all is_read reads \<and>
          (r = RESULT_SUCCESS \<and> p' = Save_encode T q n d \<and> reads = [] \<or>
           r = RESULT_FAIL_WRITE)"
proof -
  let ?p2 = "Save_encode T q n d"
  let ?op = "OpWrite (BlockLocation T (u32 n)) (Block_bytes (block ?p2)) (kBlockSize T)"
  obtain w1 ok where wr:
    "nvmem_Write T w (BlockLocation T (u32 n)) (Block_bytes (block ?p2)) (kBlockSize T) = (w1, ok)"
    by (cases "nvmem_Write T w (BlockLocation T (u32 n)) (Block_bytes (block ?p2)) (kBlockSize T)")
  have t1: "trace w1 = trace w @ [?op]"
    using nvmem_trace(3) [of T w "BlockLocation T (u32 n)" "Block_bytes (block ?p2)" "kBlockSize T"] wr
    by simp
  show ?thesis
  proof (cases ok)
    case True
    with assms wr have "r = RESULT_SUCCESS" "p' = ?p2" "w' = w1"
      by (simp_all add: Save_write_def Let_def Save_encode_fields)
    with t1 show ?thesis by simp
  next
    case False
    obtain r3 p3 w3 where rs: "Reset T ?p2 w1 = (r3, p3, w3)"
      by (cases "Reset T ?p2 w1")
    with False assms wr have "r = RESULT_FAIL_WRITE" "w' = w3"
      by (simp_all add: Save_write_def Let_def Save_encode_fields)
    moreover from Reset_trace [OF rs] obtain ops where "trace w3 = trace w1 @ ops" "list_all is_read ops"
      by blast
    ultimately show ?thesis using t1 by simp
  qed
qed

lemma Save_write_result:
  "fst (Save_write T q w n d) =
     (if snd (nvmem_Write T w (BlockLocation T (u32 n))
               (Block_bytes (block (Save_encode T q n d))) (kBlockSize T))
      then RESULT_SUCCESS else RESULT_FAIL_WRITE)"
  by (simp add: Save_write_def Let_def Save_encode_fields split: prod.splits)

text \<open>The shape of a call of Save: what it returns, and the driver calls it makes.\<close>

lemma Save_shape:
  assumes "Save T p w d = Some (r, p', w')" and "0 < kNumBlocks T"
  obtains
    (same) "DataIsSame T p d" "r = RESULT_SUCCESS" "p' = p" "w' = w"
  | (erase_failed) probes where
      "\<not> DataIsSame T p d" "r = RESULT_FAIL_ERASE" "p' = p" "list_all is_probe probes"
      "trace w' = trace w @ probes @
         [OpErase (if active_block_n p = - 1 then 0
                   else (next_page_of T (active_block_n p) * kPageSize T) mod 2 ^ 32)
                  (if active_block_n p = - 1 then (kNumPages T * kPageSize T) mod 2 ^ 32
                   else kPageSize T)]"
  | (erased) probes q reads where
      "\<not> DataIsSame T p d" "list_all is_probe probes" "list_all is_read reads"
      "q = p\<lparr>sequence := (if active_block_n p = - 1 then 0 else sequence p + 1)\<rparr>"
      "trace w' = trace w @ probes @
         [OpErase (if active_block_n p = - 1 then 0
                   else (next_page_of T (active_block_n p) * kPageSize T) mod 2 ^ 32)
                  (if active_block_n p = - 1 then (kNumPages T * kPageSize T) mod 2 ^ 32
                   else kPageSize T),
          OpWrite (BlockLocation T (u32 (active_block_n (Save_encode T q
                     (if active_block_n p = - 1 then 0
                      else int ((next_page_of T (active_block_n p) * kBlocksPerPage T) mod 2 ^ 32)) d))))
                  (Block_bytes (block (Save_encode T q
                     (if active_block_n p = - 1 then 0
                      else int ((next_page_of T (active_block_n p) * kBlocksPerPage T) mod 2 ^ 32)) d)))
                  (kBlockSize T)] @ reads"
      "r = RESULT_SUCCESS \<and> reads = [] \<and> p' = Save_encode T q
                     (if active_block_n p = - 1 then 0
                      else int ((next_page_of T (active_block_n p) * kBlocksPerPage T) mod 2 ^ 32)) d
       \<or> r = RESULT_FAIL_WRITE"
  | (next_free) probes n reads where
      "\<not> DataIsSame T p d" "list_all is_probe probes" "list_all is_read reads"
      "0 \<le> n" "n < int (kNumBlocks T)" "n \<noteq> active_block_n p"
      "trace w' = trace w @ probes @
         [OpWrite (BlockLocation T (u32 n))
                  (Block_bytes (block (Save_encode T (p\<lparr>sequence := sequence p + 1\<rparr>) n d)))
                  (kBlockSize T)] @ reads"
      "r = RESULT_SUCCESS \<and> reads = [] \<and> p' = Save_encode T (p\<lparr>sequence := sequence p + 1\<rparr>) n d
       \<or> r = RESULT_FAIL_WRITE"
proof (cases "DataIsSame T p d")
  case True
  with assms(1) have "r = RESULT_SUCCESS" "p' = p" "w' = w" by (simp_all add: Save_def)
  with True show ?thesis by (rule same)
next
  case False
  with assms(1) obtain n w1 where nw: "NextWritableBlock T (active_block_n p) w = Some (n, w1)"
    by (auto simp: Save_def split: option.splits)
  from NextWritableBlock_result [OF nw assms(2)] obtain probes where
    n: "n = - 1 \<or> (0 \<le> n \<and> n < int (kNumBlocks T) \<and> n \<noteq> active_block_n p)"
    and pr: "trace w1 = trace w @ probes" "list_all is_probe probes" by blast
  show ?thesis
  proof (cases "n = - 1")
    case nfree: False
    with assms(1) False nw have sw:
      "Save_write T (p\<lparr>sequence := sequence p + 1\<rparr>) w1 n d = (r, p', w')"
      by (simp add: Save_def)
    from Save_write_shape [OF sw] obtain reads where
      "trace w' = trace w1 @
            OpWrite (BlockLocation T (u32 n))
              (Block_bytes (block (Save_encode T (p\<lparr>sequence := sequence p + 1\<rparr>) n d)))
              (kBlockSize T) # reads"
      "list_all is_read reads"
      "r = RESULT_SUCCESS \<and> p' = Save_encode T (p\<lparr>sequence := sequence p + 1\<rparr>) n d \<and> reads = [] \<or>
           r = RESULT_FAIL_WRITE" by blast
    with False pr n nfree show ?thesis
      by (intro next_free [of probes reads n]) auto
  next
    case full: True
    let ?l = "if active_block_n p = - 1 then 0
              else (next_page_of T (active_block_n p) * kPageSize T) mod 2 ^ 32"
    let ?s = "if active_block_n p = - 1 then (kNumPages T * kPageSize T) mod 2 ^ 32
              else kPageSize T"
    let ?n = "if active_block_n p = - 1 then 0
              else int ((next_page_of T (active_block_n p) * kBlocksPerPage T) mod 2 ^ 32)"
    let ?q = "p\<lparr>sequence := (if active_block_n p = - 1 then 0 else sequence p + 1)\<rparr>"
    obtain w2 ok where er: "nvmem_Erase T w1 ?l ?s = (w2, ok)"
      by (cases "nvmem_Erase T w1 ?l ?s")
    have t2: "trace w2 = trace w @ probes @ [OpErase ?l ?s]"
      using nvmem_trace(4) [of T w1 ?l ?s] er pr(1) by simp
    show ?thesis
    proof (cases ok)
      case ef: False
      with assms(1) False nw full er have "r = RESULT_FAIL_ERASE" "p' = p" "w' = w2"
        by (auto simp: Save_def Let_def split: if_splits)
      with False pr(2) t2 show ?thesis
        by (intro erase_failed [of probes]) auto
    next
      case True
      with assms(1) False nw full er have sw: "Save_write T ?q w2 ?n d = (r, p', w')"
        by (auto simp: Save_def Let_def split: if_splits)
      from Save_write_shape [OF sw] obtain reads where
        "trace w' = trace w2 @
            OpWrite (BlockLocation T (u32 ?n)) (Block_bytes (block (Save_encode T ?q ?n d)))
              (kBlockSize T) # reads"
        "list_all is_read reads"
        "r = RESULT_SUCCESS \<and> p' = Save_encode T ?q ?n d \<and> reads = [] \<or>
           r = RESULT_FAIL_WRITE" by blast
      with False pr(2) t2 show ?thesis
        by (intro erased [of probes reads ?q]) (auto simp: Save_encode_fields)
    qed
  qed
qed


lemma no_write_among:
  "list_all is_probe ops \<Longrightarrow> filter is_write ops = []"
  "list_all is_read ops \<Longrightarrow> filter is_write ops = []"
  "list_all is_probe ops \<Longrightarrow> filter is_erase ops = []"
  "list_all is_read ops \<Longrightarrow> filter is_erase ops = []"
proof -
  have "\<And>op. is_probe op \<Longrightarrow> \<not> is_write op \<and> \<not> is_erase op"
    by (case_tac op) simp_all
  moreover have "\<And>op. is_read op \<Longrightarrow> \<not> is_write op \<and> \<not> is_erase op"
    by (case_tac op) simp_all
  ultimately show
    "list_all is_probe ops \<Longrightarrow> filter is_write ops = []"
    "list_all is_read ops \<Longrightarrow> filter is_write ops = []"
    "list_all is_probe ops \<Longrightarrow> filter is_erase ops = []"
    "list_all is_read ops \<Longrightarrow> filter is_erase ops = []"
    by (auto simp: list_all_iff filter_empty_conv)
qed

lemma Save_result_set:
  assumes "Save T p w d = Some (r, p', w')"
  shows "r = RESULT_SUCCESS \<or> r = RESULT_FAIL_ERASE \<or> r = RESULT_FAIL_WRITE"
proof -
  have sw: "\<And>q w1 n. Save_write T q w1 n d = (r, p', w') \<Longrightarrow>
      r = RESULT_SUCCESS \<or> r = RESULT_FAIL_WRITE"
    using Save_write_result by (metis fst_conv)
  from assms show ?thesis
    by (auto simp: Save_def Let_def split: if_splits option.splits prod.splits bool.splits dest: sw)
qed

lemma Save_returns:
  assumes "0 < kNumBlocks T" and "active_in_range T p"
  shows "\<exists>y. Save T p w d = Some y"
proof -
  from NextWritableBlock_terminates [OF assms] obtain y where
    "NextWritableBlock T (active_block_n p) w = Some y" by blast
  moreover have "\<And>x :: Result \<times> Persist \<times> 'a world. \<exists>a b c. x = (a, b, c)"
    by (metis prod_cases3)
  ultimately show ?thesis
    by (cases y) (simp add: Save_def Let_def split: prod.splits bool.splits)
qed

lemma Save_success_same:
  assumes "Save T p w d = Some (RESULT_SUCCESS, p', w')" and "0 < kNumBlocks T"
  shows "DataIsSame T p' d"
  using assms
proof (cases rule: Save_shape)
  case same
  then show ?thesis by simp
next
  case (erase_failed probes)
  then show ?thesis by simp
next
  case (erased probes q reads)
  then show ?thesis
    by (auto simp: DataIsSame_def Save_encode_fields)
next
  case (next_free probes n reads)
  then show ?thesis
    by (auto simp: DataIsSame_def Save_encode_fields)
qed

lemma Save_counts:
  assumes "Save T p w d = Some (r, p', w')" and "0 < kNumBlocks T"
  shows "\<exists>ops. trace w' = trace w @ ops \<and>
           length (filter is_write ops) \<le> 1 \<and> length (filter is_erase ops) \<le> 1 \<and>
           (r = RESULT_FAIL_ERASE \<longrightarrow> p' = p \<and> filter is_write ops = []) \<and>
           (DataIsSame T p d \<longrightarrow> ops = [])"
  using assms
proof (cases rule: Save_shape)
  case same
  then show ?thesis by simp
next
  case (erase_failed probes)
  from erase_failed(5) obtain ops er where
    "trace w' = trace w @ ops" "ops = probes @ [er]" "is_erase er" "\<not> is_write er" by simp
  with erase_failed(1-4) show ?thesis
    by (intro exI [of _ ops]) (simp add: no_write_among)
next
  case (erased probes q reads)
  from erased(5) obtain ops er wr where
    "trace w' = trace w @ ops" "ops = probes @ [er, wr] @ reads" "is_erase er" "is_write wr"
    "\<not> is_erase wr" "\<not> is_write er" by simp
  with erased(1-3,6) show ?thesis
    by (intro exI [of _ ops]) (auto simp: no_write_among)
next
  case (next_free probes n reads)
  from next_free(7) obtain ops wr where
    "trace w' = trace w @ ops" "ops = probes @ [wr] @ reads" "is_write wr" "\<not> is_erase wr"
    by simp
  with next_free(1-3,8) show ?thesis
    by (intro exI [of _ ops]) (auto simp: no_write_among)
qed


section \<open>Evaluation on the three-block configuration\<close>

lemma ref_byte_step_unfold:
  "ref_byte_step c b = ref_bit_step (ref_bit_step (ref_bit_step (ref_bit_step (ref_bit_step
     (ref_bit_step (ref_bit_step (ref_bit_step (c XOR push_bit 8 (ucast b)))))))))"
  by (simp add: ref_byte_step_def eval_nat_numeral)

lemma GetCRC_reference:
  "GetCRC T blk =
     crc16_reference (ucast (datatype_version T) OR push_bit 8 (NOT (ucast (datatype_version T))))
       (take (sizeof_TData T + 2) (Block_bytes blk))"
  by (simp only: GetCRC_def Let_def Process_crc16_reference)

lemma T3_GetCRC:
  "GetCRC T3 \<lparr>data = [x], sequence_n = s, crc = c, padding = pd\<rparr> =
     ref_byte_step (ref_byte_step (ref_byte_step 65025 x) (ucast s)) (ucast (drop_bit 8 s))"
proof -
  have seed: "(- 511 :: u16) = 65025" by simp
  show ?thesis
    by (simp add: GetCRC_reference T3_fields Block_bytes_def le16_def seed)
qed

lemma T3_crc_values:
  "ref_byte_step (ref_byte_step (ref_byte_step 65025 66) 0) 0 = 47279"
  "ref_byte_step (ref_byte_step (ref_byte_step 65025 66) 1) 0 = 35742"
  "ref_byte_step (ref_byte_step (ref_byte_step 65025 170) 0) 0 = 45375"
  "ref_byte_step (ref_byte_step (ref_byte_step 65025 187) 3) 0 = 36927"
  "ref_byte_step (ref_byte_step (ref_byte_step 65025 255) 65535) 255 = 6414"
  "ref_byte_step (ref_byte_step (ref_byte_step 65025 0) 0) 0 = 52066"
  "ref_byte_step (ref_byte_step (ref_byte_step 65025 67) 2) 0 = 59901"
  "ref_byte_step (ref_byte_step (ref_byte_step 65025 68) 3) 0 = 24412"
  "ref_byte_step (ref_byte_step (ref_byte_step 65025 69) 4) 0 = 61947"
  "ref_byte_step (ref_byte_step (ref_byte_step 65025 70) 5) 0 = 39834"
  by (simp_all add: ref_byte_step_unfold ref_bit_step_def)

lemma T3_locations:
  "BlockLocation T3 0 = 0" "BlockLocation T3 (Suc 0) = 5" "BlockLocation T3 2 = 10"
  by (simp_all add: BlockLocation_def T3_geometry)

lemma upt3: "[0..<3] = [0, Suc 0, 2]"
  by (simp add: upt_rec)

lemma list_all_replicate: "list_all P (replicate n x) \<longleftrightarrow> n = 0 \<or> P x"
  by (auto simp: list_all_iff)

text \<open>The rewrite rules that evaluate the operations on \<open>T3\<close> and a flash device.\<close>

lemmas T3_eval = list_all_replicate
  T3_geometry T3_locations T3_fields upt3 Let_def u32_def
  Init_def Reset_def sequence_newer_def Load_def
  Save_def Save_write_def Save_encode_def DataIsSame_def Save_twice_def
  NextWritableBlock_def NextWritableBlock_loop.simps next_page_of_def
  nvmem_Read_def nvmem_Writable_def nvmem_Write_def nvmem_Erase_def
  flash_Read_def flash_Writable_def flash_Write_def flash_Erase_def
  flash_dev_def flash_ok_def start_def fresh_def
  Block_of_bytes_def Block_bytes_def word_le16_def le16_def
  T3_GetCRC T3_crc_values




section \<open>Save: results and driver calls\<close>

subsection \<open>Claim C10\<close>

text \<open>
  Claim C10. If \<open>Save\<close> returns \<open>FAIL_ERASE\<close>, the instance is exactly as before the
  call (\<open>active_block_n\<close>, \<open>sequence\<close> and the cached block are unchanged) and no
  NVMem \<open>Write\<close> was issued during the call.
\<close>

theorem Save_erase_failure_atomic:
  assumes "Save T p w d = Some (RESULT_FAIL_ERASE, p', w')" and "0 < kNumBlocks T"
  shows "p' = p \<and> (\<exists>ops. trace w' = trace w @ ops \<and> filter is_write ops = [])"
  using Save_counts [OF assms] by auto

theorem Save_erase_failure_atomic_witness:
  "0 < kNumBlocks T3 \<and>
   Save T3 fresh (start (flash_dev (replicate 15 0) False False True)) [0x42] =
     Some (RESULT_FAIL_ERASE, fresh,
           \<lparr>dev = flash_dev (replicate 15 0) False False True,
            trace = [OpWritable 0 5, OpWritable 5 5, OpWritable 10 5, OpErase 0 15]\<rparr>) \<and>
   filter is_write [OpWritable 0 5, OpWritable 5 5, OpWritable 10 5, OpErase 0 15] = []"
proof -
  have e: "Save T3 fresh (start (flash_dev (replicate 15 0) False False True)) [0x42] =
     Some (RESULT_FAIL_ERASE, fresh,
           \<lparr>dev = flash_dev (replicate 15 0) False False True,
            trace = [OpWritable 0 5, OpWritable 5 5, OpWritable 10 5, OpErase 0 15]\<rparr>)"
    by (simp add: T3_eval)
  have n: "0 < kNumBlocks T3" by (simp add: T3_geometry)
  from Save_erase_failure_atomic [OF e n] e n show ?thesis by simp
qed

subsection \<open>The driver's answers decide the result\<close>

lemma replay_simps:
  "replay T m [] = m"
  "replay T m (op # ops) = replay T (run_op T m op) ops"
  "replay T m (xs @ ys) = replay T (replay T m xs) ys"
  by (simp_all add: replay_def)

lemma nvmem_dev:
  "dev (fst (nvmem_Read T w l n)) = run_op T (dev w) (OpRead l n)"
  "dev (fst (nvmem_Writable T w l n)) = run_op T (dev w) (OpWritable l n)"
  "dev (fst (nvmem_Write T w l src n)) = run_op T (dev w) (OpWrite l src n)"
  "dev (fst (nvmem_Erase T w l n)) = run_op T (dev w) (OpErase l n)"
  by (simp_all add: nvmem_Read_def nvmem_Writable_def nvmem_Write_def nvmem_Erase_def
      split: prod.split)

lemma nvmem_outcome:
  "snd (nvmem_Write T w l src n) = snd (Write (nvmem T) (dev w) l src n)"
  "snd (nvmem_Erase T w l n) = snd (Erase (nvmem T) (dev w) l n)"
  by (simp_all add: nvmem_Write_def nvmem_Erase_def split: prod.split)

lemma outcome_skip:
  "\<not> is_write op \<Longrightarrow> write_outcome T m (op # ops) = write_outcome T (run_op T m op) ops"
  "\<not> is_erase op \<Longrightarrow> erase_outcome T m (op # ops) = erase_outcome T (run_op T m op) ops"
  by (cases op; simp)+

lemma outcome_append:
  "filter is_write xs = [] \<Longrightarrow>
     write_outcome T m (xs @ ys) = write_outcome T (replay T m xs) ys"
  "filter is_erase xs = [] \<Longrightarrow>
     erase_outcome T m (xs @ ys) = erase_outcome T (replay T m xs) ys"
proof -
  show "filter is_write xs = [] \<Longrightarrow>
     write_outcome T m (xs @ ys) = write_outcome T (replay T m xs) ys"
    by (induction xs arbitrary: m) (simp_all add: replay_simps outcome_skip split: if_splits)
  show "filter is_erase xs = [] \<Longrightarrow>
     erase_outcome T m (xs @ ys) = erase_outcome T (replay T m xs) ys"
    by (induction xs arbitrary: m) (simp_all add: replay_simps outcome_skip split: if_splits)
qed

lemma outcome_none:
  "filter is_write xs = [] \<Longrightarrow> write_outcome T m xs = None"
  "filter is_erase xs = [] \<Longrightarrow> erase_outcome T m xs = None"
  using outcome_append(1) [of xs T m "[]"] outcome_append(2) [of xs T m "[]"] by simp_all

lemma Reset_scan_replay:
  "Reset_scan T idxs p w = (ok, p', w') \<Longrightarrow>
     \<exists>ops. trace w' = trace w @ ops \<and> list_all is_read ops \<and> dev w' = replay T (dev w) ops"
proof (induction idxs arbitrary: p w)
  case Nil
  then show ?case by (simp add: replay_simps)
next
  case (Cons i rest)
  obtain w1 r where rd: "nvmem_Read T w (BlockLocation T i) (kBlockSize T) = (w1, r)"
    by (cases "nvmem_Read T w (BlockLocation T i) (kBlockSize T)")
  let ?op = "OpRead (BlockLocation T i) (kBlockSize T)"
  have t1: "trace w1 = trace w @ [?op]" "dev w1 = replay T (dev w) [?op]"
    using nvmem_trace(1) [of T w "BlockLocation T i" "kBlockSize T"]
      nvmem_dev(1) [of T w "BlockLocation T i" "kBlockSize T"] rd
    by (simp_all add: replay_simps)
  show ?case
  proof (cases r)
    case None
    with Cons.prems rd have "w' = w1" by (auto simp: Let_def)
    with t1 have "trace w' = trace w @ [?op] \<and> list_all is_read [?op] \<and>
        dev w' = replay T (dev w) [?op]" by simp
    then show ?thesis by blast
  next
    case (Some bytes)
    with Cons.prems rd obtain p2 where "Reset_scan T rest p2 w1 = (ok, p', w')"
      by (auto simp: Let_def)
    from Cons.IH [OF this] obtain ops where "trace w' = trace w1 @ ops" "list_all is_read ops"
      "dev w' = replay T (dev w1) ops" by blast
    with t1 have "trace w' = trace w @ (?op # ops) \<and> list_all is_read (?op # ops) \<and>
        dev w' = replay T (dev w) (?op # ops)" by (simp add: replay_simps)
    then show ?thesis by blast
  qed
qed

lemma Reset_replay:
  assumes "Reset T p w = (r, p', w')"
  shows "\<exists>ops. trace w' = trace w @ ops \<and> list_all is_read ops \<and> dev w' = replay T (dev w) ops"
proof -
  obtain ok p1 w1 where sc:
    "Reset_scan T [0..<kNumBlocks T] (p\<lparr>sequence := 0, active_block_n := - 1\<rparr>) w = (ok, p1, w1)"
    by (cases "Reset_scan T [0..<kNumBlocks T] (p\<lparr>sequence := 0, active_block_n := - 1\<rparr>) w")
  from Reset_scan_replay [OF sc] obtain ops where
    ops: "trace w1 = trace w @ ops" "list_all is_read ops" "dev w1 = replay T (dev w) ops"
    by blast
  show ?thesis
  proof (cases "ok \<and> active_block_n p1 \<noteq> - 1")
    case False
    with assms sc have "w' = w1" by (auto simp: Reset_def Let_def split: bool.splits)
    with ops show ?thesis by blast
  next
    case True
    let ?loc = "BlockLocation T (u32 (active_block_n p1))"
    let ?op = "OpRead ?loc (kBlockSize T)"
    from True assms sc have "w' = fst (nvmem_Read T w1 ?loc (kBlockSize T))"
      by (auto simp: Reset_def Let_def split: prod.splits option.splits bool.splits)
    then have "trace w' = trace w @ (ops @ [?op]) \<and> list_all is_read (ops @ [?op]) \<and>
        dev w' = replay T (dev w) (ops @ [?op])"
      using ops by (simp add: nvmem_trace nvmem_dev replay_simps)
    then show ?thesis by blast
  qed
qed

lemma NextWritableBlock_loop_replay:
  assumes "NextWritableBlock_loop T cur nxt w = Some y"
  shows "\<exists>ops. trace (snd y) = trace w @ ops \<and> list_all is_probe ops \<and>
           dev (snd y) = replay T (dev w) ops"
proof (rule NextWritableBlock_loop.raw_induct
    [where P = "\<lambda>T c n w y. \<exists>ops. trace (snd y) = trace w @ ops \<and> list_all is_probe ops \<and>
           dev (snd y) = replay T (dev w) ops", OF _ assms])
  fix loop :: "'a tparams \<Rightarrow> int \<Rightarrow> int \<Rightarrow> 'a world \<Rightarrow> (int \<times> 'a world) option"
  fix T c n w y
  assume IH: "\<And>T c n w y. loop T c n w = Some y \<Longrightarrow>
      \<exists>ops. trace (snd y) = trace w @ ops \<and> list_all is_probe ops \<and>
           dev (snd y) = replay T (dev w) ops"
  assume eq: "(let next_block_n' = int (u32 (n + 1) mod kNumBlocks T)
      in case nvmem_Writable T w (BlockLocation T (u32 next_block_n')) (kBlockSize T) of
         (w', writable) \<Rightarrow>
           if writable then Some (next_block_n', w')
           else if next_block_n' \<noteq> c then loop T c next_block_n' w'
                else Some (next_block_n', w')) = Some y"
  define n' where "n' = int (u32 (n + 1) mod kNumBlocks T)"
  obtain w1 wr where pr:
    "nvmem_Writable T w (BlockLocation T (u32 n')) (kBlockSize T) = (w1, wr)"
    by (cases "nvmem_Writable T w (BlockLocation T (u32 n')) (kBlockSize T)")
  let ?op = "OpWritable (BlockLocation T (u32 n')) (kBlockSize T)"
  have t1: "trace w1 = trace w @ [?op]" "dev w1 = replay T (dev w) [?op]"
    using nvmem_trace(2) [of T w "BlockLocation T (u32 n')" "kBlockSize T"]
      nvmem_dev(2) [of T w "BlockLocation T (u32 n')" "kBlockSize T"] pr
    by (simp_all add: replay_simps)
  show "\<exists>ops. trace (snd y) = trace w @ ops \<and> list_all is_probe ops \<and>
           dev (snd y) = replay T (dev w) ops"
  proof (cases "wr \<or> n' = c")
    case True
    with eq pr have "y = (n', w1)"
      by (auto simp: Let_def n'_def [symmetric] split: if_splits)
    with t1 have "trace (snd y) = trace w @ [?op] \<and> list_all is_probe [?op] \<and>
           dev (snd y) = replay T (dev w) [?op]" by simp
    then show ?thesis by blast
  next
    case False
    with eq pr have "loop T c n' w1 = Some y"
      by (auto simp: Let_def n'_def [symmetric])
    from IH [OF this] obtain ops where "trace (snd y) = trace w1 @ ops" "list_all is_probe ops"
      "dev (snd y) = replay T (dev w1) ops" by blast
    with t1 have "trace (snd y) = trace w @ (?op # ops) \<and> list_all is_probe (?op # ops) \<and>
           dev (snd y) = replay T (dev w) (?op # ops)" by (simp add: replay_simps)
    then show ?thesis by blast
  qed
qed

lemma NextWritableBlock_replay:
  assumes "NextWritableBlock T a w = Some (n, w')"
  shows "\<exists>ops. trace w' = trace w @ ops \<and> list_all is_probe ops \<and> dev w' = replay T (dev w) ops"
proof -
  from assms obtain c y where "NextWritableBlock_loop T c c w = Some y" "w' = snd y"
    by (auto simp: NextWritableBlock_def Let_def split: option.splits prod.splits)
  with NextWritableBlock_loop_replay show ?thesis by blast
qed

text \<open>The write step: one Write, then the reads of Reset if the Write failed.\<close>

lemma Save_write_replay:
  assumes "Save_write T q w n d = (r, p', w')"
  shows "\<exists>ops. trace w' = trace w @ ops \<and> dev w' = replay T (dev w) ops \<and>
           filter is_erase ops = [] \<and>
           write_outcome T (dev w) ops = Some (r = RESULT_SUCCESS) \<and>
           (r = RESULT_SUCCESS \<or> r = RESULT_FAIL_WRITE)"
proof -
  let ?p2 = "Save_encode T q n d"
  let ?l = "BlockLocation T (u32 n)" and ?src = "Block_bytes (block ?p2)"
  let ?op = "OpWrite ?l ?src (kBlockSize T)"
  obtain w1 ok where wr: "nvmem_Write T w ?l ?src (kBlockSize T) = (w1, ok)"
    by (cases "nvmem_Write T w ?l ?src (kBlockSize T)")
  have t1: "trace w1 = trace w @ [?op]" "dev w1 = replay T (dev w) [?op]"
    "ok = snd (Write (nvmem T) (dev w) ?l ?src (kBlockSize T))"
    using nvmem_trace(3) [of T w ?l ?src "kBlockSize T"]
      nvmem_dev(3) [of T w ?l ?src "kBlockSize T"]
      nvmem_outcome(1) [of T w ?l ?src "kBlockSize T"] wr
    by (simp_all add: replay_simps)
  show ?thesis
  proof (cases ok)
    case True
    with assms wr have "r = RESULT_SUCCESS" "w' = w1"
      by (simp_all add: Save_write_def Let_def Save_encode_fields)
    with t1 True have "trace w' = trace w @ [?op] \<and> dev w' = replay T (dev w) [?op] \<and>
           filter is_erase [?op] = [] \<and>
           write_outcome T (dev w) [?op] = Some (r = RESULT_SUCCESS) \<and>
           (r = RESULT_SUCCESS \<or> r = RESULT_FAIL_WRITE)" by simp
    then show ?thesis by blast
  next
    case False
    with assms wr obtain r2 where rs: "Reset T ?p2 w1 = (r2, p', w')" and r: "r = RESULT_FAIL_WRITE"
      by (auto simp: Save_write_def Let_def Save_encode_fields split: prod.splits)
    from Reset_replay [OF rs] obtain reads where rd: "trace w' = trace w1 @ reads"
      "list_all is_read reads" "dev w' = replay T (dev w1) reads" by blast
    have "filter is_erase reads = []" using rd(2) by (rule no_write_among(4))
    with t1 False r rd have "trace w' = trace w @ (?op # reads) \<and>
           dev w' = replay T (dev w) (?op # reads) \<and>
           filter is_erase (?op # reads) = [] \<and>
           write_outcome T (dev w) (?op # reads) = Some (r = RESULT_SUCCESS) \<and>
           (r = RESULT_SUCCESS \<or> r = RESULT_FAIL_WRITE)" by (simp add: replay_simps)
    then show ?thesis by blast
  qed
qed

lemma Save_replay:
  assumes s: "Save T p w d = Some (r, p', w')"
  shows "\<exists>ops. trace w' = trace w @ ops \<and> dev w' = replay T (dev w) ops \<and>
           (r = RESULT_FAIL_ERASE \<longleftrightarrow> erase_outcome T (dev w) ops = Some False) \<and>
           (r = RESULT_FAIL_WRITE \<longleftrightarrow> write_outcome T (dev w) ops = Some False) \<and>
           (r = RESULT_SUCCESS \<longleftrightarrow> erase_outcome T (dev w) ops \<noteq> Some False \<and>
              write_outcome T (dev w) ops \<noteq> Some False)"
proof (cases "DataIsSame T p d")
  case True
  with s have "r = RESULT_SUCCESS" "w' = w" by (simp_all add: Save_def)
  then have "trace w' = trace w @ [] \<and> dev w' = replay T (dev w) [] \<and>
           (r = RESULT_FAIL_ERASE \<longleftrightarrow> erase_outcome T (dev w) [] = Some False) \<and>
           (r = RESULT_FAIL_WRITE \<longleftrightarrow> write_outcome T (dev w) [] = Some False) \<and>
           (r = RESULT_SUCCESS \<longleftrightarrow> erase_outcome T (dev w) [] \<noteq> Some False \<and>
              write_outcome T (dev w) [] \<noteq> Some False)"
    by (simp add: replay_simps)
  then show ?thesis by blast
next
  case False
  from False s obtain n w1 where nw: "NextWritableBlock T (active_block_n p) w = Some (n, w1)"
    by (auto simp: Save_def split: option.splits)
  from NextWritableBlock_replay [OF nw] obtain probes where pr: "trace w1 = trace w @ probes"
    "list_all is_probe probes" "dev w1 = replay T (dev w) probes" by blast
  note nop = no_write_among(1) [OF pr(2)] no_write_among(3) [OF pr(2)]
  have written: "\<exists>ops. trace w' = trace w2 @ ops \<and> dev w' = replay T (dev w2) ops \<and>
           filter is_erase ops = [] \<and>
           write_outcome T (dev w2) ops = Some (r = RESULT_SUCCESS) \<and>
           (r = RESULT_SUCCESS \<or> r = RESULT_FAIL_WRITE)"
    if "Save_write T q w2 m d = (r, p', w')" for q w2 m
    using that by (rule Save_write_replay)
  show ?thesis
  proof (cases "n = - 1")
    case nfree: False
    with s False nw have "Save_write T (p\<lparr>sequence := sequence p + 1\<rparr>) w1 n d = (r, p', w')"
      by (simp add: Save_def)
    from written [OF this] obtain ops where ops: "trace w' = trace w1 @ ops"
      "dev w' = replay T (dev w1) ops" "filter is_erase ops = []"
      "write_outcome T (dev w1) ops = Some (r = RESULT_SUCCESS)"
      "r = RESULT_SUCCESS \<or> r = RESULT_FAIL_WRITE" by blast
    have "filter is_erase (probes @ ops) = []" using nop(2) ops(3) by simp
    then have "erase_outcome T (dev w) (probes @ ops) = None" by (rule outcome_none(2))
    moreover have "write_outcome T (dev w) (probes @ ops) = Some (r = RESULT_SUCCESS)"
      using outcome_append(1) [OF nop(1), of T "dev w" ops] ops(4) pr(3) by simp
    ultimately have "trace w' = trace w @ (probes @ ops) \<and>
           dev w' = replay T (dev w) (probes @ ops) \<and>
           (r = RESULT_FAIL_ERASE \<longleftrightarrow> erase_outcome T (dev w) (probes @ ops) = Some False) \<and>
           (r = RESULT_FAIL_WRITE \<longleftrightarrow> write_outcome T (dev w) (probes @ ops) = Some False) \<and>
           (r = RESULT_SUCCESS \<longleftrightarrow> erase_outcome T (dev w) (probes @ ops) \<noteq> Some False \<and>
              write_outcome T (dev w) (probes @ ops) \<noteq> Some False)"
      using ops(1,2,5) pr(1,3) by (auto simp: replay_simps)
    then show ?thesis by blast
  next
    case full: True
    define l where "l = (if active_block_n p = - 1 then 0
        else (next_page_of T (active_block_n p) * kPageSize T) mod 2 ^ 32)"
    define sz where "sz = (if active_block_n p = - 1 then (kNumPages T * kPageSize T) mod 2 ^ 32
        else kPageSize T)"
    define q where "q = (if active_block_n p = - 1 then p\<lparr>sequence := 0\<rparr>
        else p\<lparr>sequence := sequence p + 1\<rparr>)"
    define m where "m = (if active_block_n p = - 1 then 0
        else int ((next_page_of T (active_block_n p) * kBlocksPerPage T) mod 2 ^ 32))"
    obtain w2 ok where er: "nvmem_Erase T w1 l sz = (w2, ok)"
      by (cases "nvmem_Erase T w1 l sz")
    let ?op = "OpErase l sz"
    have t2: "trace w2 = trace w1 @ [?op]" "dev w2 = replay T (dev w1) [?op]"
      "ok = snd (Erase (nvmem T) (dev w1) l sz)"
      using nvmem_trace(4) [of T w1 l sz] nvmem_dev(4) [of T w1 l sz]
        nvmem_outcome(2) [of T w1 l sz] er
      by (simp_all add: replay_simps)
    have eo: "erase_outcome T (dev w) (probes @ ?op # ops) = Some ok" for ops
      using outcome_append(2) [OF nop(2), of T "dev w" "?op # ops"] t2(3) pr(3) by simp
    have wo: "write_outcome T (dev w) (probes @ ?op # ops) = write_outcome T (dev w2) ops" for ops
      using outcome_append(1) [OF nop(1), of T "dev w" "?op # ops"] t2(2) pr(3)
      by (simp add: replay_simps)
    show ?thesis
    proof (cases ok)
      case False
      with s \<open>\<not> DataIsSame T p d\<close> nw full er have "r = RESULT_FAIL_ERASE" "w' = w2"
        by (auto simp: Save_def Let_def l_def sz_def split: if_splits)
      with t2 pr False eo [of "[]"] wo [of "[]"]
      have "trace w' = trace w @ (probes @ [?op]) \<and>
           dev w' = replay T (dev w) (probes @ [?op]) \<and>
           (r = RESULT_FAIL_ERASE \<longleftrightarrow> erase_outcome T (dev w) (probes @ [?op]) = Some False) \<and>
           (r = RESULT_FAIL_WRITE \<longleftrightarrow> write_outcome T (dev w) (probes @ [?op]) = Some False) \<and>
           (r = RESULT_SUCCESS \<longleftrightarrow> erase_outcome T (dev w) (probes @ [?op]) \<noteq> Some False \<and>
              write_outcome T (dev w) (probes @ [?op]) \<noteq> Some False)"
        by (simp add: replay_simps)
      then show ?thesis by blast
    next
      case True
      with s \<open>\<not> DataIsSame T p d\<close> nw full er have "Save_write T q w2 m d = (r, p', w')"
        by (auto simp: Save_def Let_def l_def sz_def q_def m_def split: if_splits)
      from written [OF this] obtain ops where ops: "trace w' = trace w2 @ ops"
        "dev w' = replay T (dev w2) ops" "filter is_erase ops = []"
        "write_outcome T (dev w2) ops = Some (r = RESULT_SUCCESS)"
        "r = RESULT_SUCCESS \<or> r = RESULT_FAIL_WRITE" by blast
      from ops t2 pr True eo [of ops] wo [of ops]
      have "trace w' = trace w @ (probes @ ?op # ops) \<and>
           dev w' = replay T (dev w) (probes @ ?op # ops) \<and>
           (r = RESULT_FAIL_ERASE \<longleftrightarrow> erase_outcome T (dev w) (probes @ ?op # ops) = Some False) \<and>
           (r = RESULT_FAIL_WRITE \<longleftrightarrow> write_outcome T (dev w) (probes @ ?op # ops) = Some False) \<and>
           (r = RESULT_SUCCESS \<longleftrightarrow> erase_outcome T (dev w) (probes @ ?op # ops) \<noteq> Some False \<and>
              write_outcome T (dev w) (probes @ ?op # ops) \<noteq> Some False)"
        by (auto simp: replay_simps)
      then show ?thesis by blast
    qed
  qed
qed

subsection \<open>Claim C5\<close>

text \<open>
  Claim C5. From every state in which \<open>active_block_n\<close> is \<open>-1\<close> or a block index,
  \<open>Save\<close> returns, and whenever it returns the result is \<open>SUCCESS\<close>, \<open>FAIL_ERASE\<close> or
  \<open>FAIL_WRITE\<close>, never \<open>FAIL_READ\<close> or \<open>FAIL_NO_DATA\<close>. For every driver, the result
  is decided by the answers of the driver to the \<open>Erase\<close> and the \<open>Write\<close> that the call
  issues: \<open>Save\<close> returns \<open>FAIL_WRITE\<close> exactly when it issued a \<open>Write\<close> and that \<open>Write\<close>
  failed, and \<open>FAIL_ERASE\<close> exactly when it issued an \<open>Erase\<close> and that \<open>Erase\<close> failed,
  whatever the reads of the \<open>Reset\<close> that follows a failed \<open>Write\<close> return. The same
  holds of the write step alone: its result is \<open>FAIL_WRITE\<close> if the \<open>Write\<close> fails and
  \<open>SUCCESS\<close> otherwise, and never the result of \<open>Reset\<close>.
\<close>

theorem Save_result_taxonomy:
  "(0 < kNumBlocks T \<and> active_in_range T p \<longrightarrow> (\<exists>y. Save T p w d = Some y)) \<and>
   (\<forall>r p' w'. Save T p w d = Some (r, p', w') \<longrightarrow>
      (r = RESULT_SUCCESS \<or> r = RESULT_FAIL_ERASE \<or> r = RESULT_FAIL_WRITE) \<and>
      (\<exists>ops. trace w' = trace w @ ops \<and> dev w' = replay T (dev w) ops \<and>
         (r = RESULT_FAIL_WRITE \<longleftrightarrow> write_outcome T (dev w) ops = Some False) \<and>
         (r = RESULT_FAIL_ERASE \<longleftrightarrow> erase_outcome T (dev w) ops = Some False))) \<and>
   (\<forall>q w1 n. fst (Save_write T q w1 n d) =
      (if snd (nvmem_Write T w1 (BlockLocation T (u32 n))
                 (Block_bytes (block (Save_encode T q n d))) (kBlockSize T))
       then RESULT_SUCCESS else RESULT_FAIL_WRITE))"
proof -
  have "\<exists>ops. trace w' = trace w @ ops \<and> dev w' = replay T (dev w) ops \<and>
         (r = RESULT_FAIL_WRITE \<longleftrightarrow> write_outcome T (dev w) ops = Some False) \<and>
         (r = RESULT_FAIL_ERASE \<longleftrightarrow> erase_outcome T (dev w) ops = Some False)"
    if "Save T p w d = Some (r, p', w')" for r p' w'
    using Save_replay [OF that] by blast
  then show ?thesis
    using Save_returns [of T p w d] Save_result_set [of T p w d] Save_write_result [of T _ _ _ d]
    by blast
qed

theorem Save_result_taxonomy_witness:
  "0 < kNumBlocks T3 \<and> active_in_range T3 fresh \<and>
   Save T3 fresh (start (flash_dev (replicate 15 0xFF) True True False)) [0x42] =
     Some (RESULT_FAIL_WRITE,
           \<lparr>block = \<lparr>data = [66], sequence_n = 1, crc = 35742, padding = []\<rparr>,
            active_block_n = - 1, sequence = 0\<rparr>,
           \<lparr>dev = flash_dev (replicate 15 0xFF) True True False,
            trace = [OpWritable 0 5, OpWrite 0 [66, 1, 0, 158, 139] 5, OpRead 0 5]\<rparr>) \<and>
   write_outcome T3 (flash_dev (replicate 15 0xFF) True True False)
     [OpWritable 0 5, OpWrite 0 [66, 1, 0, 158, 139] 5, OpRead 0 5] = Some False \<and>
   erase_outcome T3 (flash_dev (replicate 15 0xFF) True True False)
     [OpWritable 0 5, OpWrite 0 [66, 1, 0, 158, 139] 5, OpRead 0 5] = None \<and>
   fst (Reset T3 (Save_encode T3 (fresh\<lparr>sequence := 1\<rparr>) 0 [0x42])
          \<lparr>dev = flash_dev (replicate 15 0xFF) True True False,
           trace = [OpWritable 0 5, OpWrite 0 [66, 1, 0, 158, 139] 5]\<rparr>) = RESULT_FAIL_READ"
proof -
  let ?m = "flash_dev (replicate 15 0xFF) True True False"
  let ?ops = "[OpWritable 0 5, OpWrite 0 [66, 1, 0, 158, 139] 5, OpRead 0 5]"
  have e: "Save T3 fresh (start ?m) [0x42] =
     Some (RESULT_FAIL_WRITE,
           \<lparr>block = \<lparr>data = [66], sequence_n = 1, crc = 35742, padding = []\<rparr>,
            active_block_n = - 1, sequence = 0\<rparr>,
           \<lparr>dev = ?m, trace = ?ops\<rparr>)"
    by (simp add: T3_eval)
  have r: "fst (Reset T3 (Save_encode T3 (fresh\<lparr>sequence := 1\<rparr>) 0 [0x42])
          \<lparr>dev = ?m, trace = [OpWritable 0 5, OpWrite 0 [66, 1, 0, 158, 139] 5]\<rparr>) = RESULT_FAIL_READ"
    by (simp add: T3_eval)
  have n: "0 < kNumBlocks T3" "active_in_range T3 fresh"
    by (simp_all add: T3_geometry active_in_range_def fresh_def)
  have o: "write_outcome T3 ?m ?ops = Some False" "erase_outcome T3 ?m ?ops = None"
    by (simp_all add: T3_fields flash_dev_def flash_Writable_def flash_Write_def)
  from Save_result_taxonomy [of T3 fresh "start ?m" "[0x42]"] e r n o show ?thesis by simp
qed

subsection \<open>Claim C7\<close>

text \<open>
  Claim C7 as stated: \<open>Save(d)\<close> on an instance whose cached data is \<open>d\<close> makes no
  NVMem call, and so the pair \<open>Save(d); Save(d)\<close> performs at most one \<open>Write\<close> and no
  \<open>Erase\<close>. The bound on erases fails when the first \<open>Save\<close> of the pair has to erase:
  on a region of \<open>T3\<close> with no writable block and no active block, both calls return
  \<open>SUCCESS\<close> and the first erases the region.
\<close>

theorem Save_twice_counterexample:
  "Save_twice T3 fresh (start (flash_dev (replicate 15 0) False False False)) [0x42] =
     Some (RESULT_SUCCESS, RESULT_SUCCESS,
           \<lparr>block = \<lparr>data = [66], sequence_n = 0, crc = 47279, padding = []\<rparr>,
            active_block_n = 0, sequence = 0\<rparr>,
           \<lparr>dev = flash_dev ([66, 0, 0, 175, 184] @ replicate 10 255) False False False,
            trace = [OpWritable 0 5, OpWritable 5 5, OpWritable 10 5, OpErase 0 15,
                     OpWrite 0 [66, 0, 0, 175, 184] 5]\<rparr>) \<and>
   length (filter is_erase [OpWritable 0 5, OpWritable 5 5, OpWritable 10 5, OpErase 0 15,
                     OpWrite 0 [66, 0, 0, 175, 184] 5]) = 1"
  by (simp add: T3_eval)

text \<open>
  Claim C7, amended. If a block is active and the cached data equals \<open>d\<close> byte for
  byte, \<open>Save(d)\<close> returns \<open>SUCCESS\<close> and makes no NVMem call at all. Consequently,
  when the first \<open>Save(d)\<close> of a pair returns \<open>SUCCESS\<close>, the second returns \<open>SUCCESS\<close>
  without any NVMem call, and the pair performs at most one \<open>Write\<close> and at most one
  \<open>Erase\<close>, both in the first call.
\<close>

theorem Save_same_data:
  assumes "0 < kNumBlocks T"
  shows "(DataIsSame T p d \<longrightarrow> Save T p w d = Some (RESULT_SUCCESS, p, w)) \<and>
         (\<forall>p1 w1. Save T p w d = Some (RESULT_SUCCESS, p1, w1) \<longrightarrow>
            Save T p1 w1 d = Some (RESULT_SUCCESS, p1, w1) \<and>
            Save_twice T p w d = Some (RESULT_SUCCESS, RESULT_SUCCESS, p1, w1) \<and>
            (\<exists>ops. trace w1 = trace w @ ops \<and>
               length (filter is_write ops) \<le> 1 \<and> length (filter is_erase ops) \<le> 1))"
proof (intro conjI allI impI)
  show "Save T p w d = Some (RESULT_SUCCESS, p, w)" if "DataIsSame T p d"
    using that by (simp add: Save_def)
next
  fix p1 w1
  assume s: "Save T p w d = Some (RESULT_SUCCESS, p1, w1)"
  from Save_success_same [OF s assms] show 2: "Save T p1 w1 d = Some (RESULT_SUCCESS, p1, w1)"
    by (simp add: Save_def)
  from s 2 show "Save_twice T p w d = Some (RESULT_SUCCESS, RESULT_SUCCESS, p1, w1)"
    by (simp add: Save_twice_def)
  from Save_counts [OF s assms]
  show "\<exists>ops. trace w1 = trace w @ ops \<and>
               length (filter is_write ops) \<le> 1 \<and> length (filter is_erase ops) \<le> 1"
    by blast
qed

theorem Save_same_data_witness:
  "0 < kNumBlocks T3 \<and>
   Save T3 fresh (start (flash_dev (replicate 15 0xFF) False False False)) [0x42] =
     Some (RESULT_SUCCESS,
           \<lparr>block = \<lparr>data = [66], sequence_n = 1, crc = 35742, padding = []\<rparr>,
            active_block_n = 0, sequence = 1\<rparr>,
           \<lparr>dev = flash_dev ([66, 1, 0, 158, 139] @ replicate 10 255) False False False,
            trace = [OpWritable 0 5, OpWrite 0 [66, 1, 0, 158, 139] 5]\<rparr>) \<and>
   DataIsSame T3 \<lparr>block = \<lparr>data = [66], sequence_n = 1, crc = 35742, padding = []\<rparr>,
                  active_block_n = 0, sequence = 1\<rparr> [0x42] \<and>
   Save_twice T3 fresh (start (flash_dev (replicate 15 0xFF) False False False)) [0x42] =
     Some (RESULT_SUCCESS, RESULT_SUCCESS,
           \<lparr>block = \<lparr>data = [66], sequence_n = 1, crc = 35742, padding = []\<rparr>,
            active_block_n = 0, sequence = 1\<rparr>,
           \<lparr>dev = flash_dev ([66, 1, 0, 158, 139] @ replicate 10 255) False False False,
            trace = [OpWritable 0 5, OpWrite 0 [66, 1, 0, 158, 139] 5]\<rparr>)"
proof -
  have e: "Save T3 fresh (start (flash_dev (replicate 15 0xFF) False False False)) [0x42] =
     Some (RESULT_SUCCESS,
           \<lparr>block = \<lparr>data = [66], sequence_n = 1, crc = 35742, padding = []\<rparr>,
            active_block_n = 0, sequence = 1\<rparr>,
           \<lparr>dev = flash_dev ([66, 1, 0, 158, 139] @ replicate 10 255) False False False,
            trace = [OpWritable 0 5, OpWrite 0 [66, 1, 0, 158, 139] 5]\<rparr>)"
    by (simp add: T3_eval)
  have n: "0 < kNumBlocks T3" by (simp add: T3_geometry)
  have d: "DataIsSame T3 \<lparr>block = \<lparr>data = [66], sequence_n = 1, crc = 35742, padding = []\<rparr>,
                  active_block_n = 0, sequence = 1\<rparr> [0x42]"
    by (simp add: DataIsSame_def T3_fields)
  from Save_same_data [OF n, of fresh "[0x42]" "start (flash_dev (replicate 15 0xFF) False False False)"]
    e n d show ?thesis by simp
qed


section \<open>Page rotation leaves the active block alone\<close>

lemma blocks_disjoint:
  assumes g: "geometry_ok T" and i: "i < kNumBlocks T" and j: "j < kNumBlocks T" and ne: "i \<noteq> j"
  shows "ranges_disjoint (BlockLocation T i) (kBlockSize T) (BlockLocation T j) (kBlockSize T)"
proof -
  let ?b = "kBlocksPerPage T" and ?PS = "kPageSize T" and ?BS = "kBlockSize T"
  note li = geom_BlockLocation [OF g i] and lj = geom_BlockLocation [OF g j]
  have ordered: "BlockLocation T x + ?BS \<le> BlockLocation T y"
    if x: "x < kNumBlocks T" and y: "y < kNumBlocks T" and lt: "x < y" for x y
  proof (cases "x div ?b < y div ?b")
    case True
    then have "(x div ?b + 1) * ?PS \<le> y div ?b * ?PS"
      by (intro mult_le_mono1) simp
    with geom_BlockLocation(3) [OF g x] geom_BlockLocation(2) [OF g y] show ?thesis
      by linarith
  next
    case False
    have "x div ?b \<le> y div ?b" using lt by (simp add: div_le_mono)
    with False have same: "x div ?b = y div ?b" by simp
    have "x mod ?b < y mod ?b"
      using lt same by (metis div_mult_mod_eq nat_add_left_cancel_less)
    then have "(x mod ?b + 1) * ?BS \<le> y mod ?b * ?BS"
      by (intro mult_le_mono1) simp
    then show ?thesis
      unfolding geom_BlockLocation(1) [OF g x] geom_BlockLocation(1) [OF g y] same
      by (simp add: algebra_simps)
  qed
  from ne consider "i < j" | "j < i" by linarith
  then show ?thesis
  proof cases
    case 1
    from ordered [OF i j 1] show ?thesis by (simp add: ranges_disjoint_def)
  next
    case 2
    from ordered [OF j i 2] show ?thesis by (simp add: ranges_disjoint_def)
  qed
qed

lemma next_page_geometry:
  assumes g: "geometry_ok T" and a0: "0 \<le> a" and a1: "a < int (kNumBlocks T)"
  shows "next_page_of T a = (nat a div kBlocksPerPage T + 1) mod kNumPages T"
    and "next_page_of T a < kNumPages T"
    and "(next_page_of T a * kPageSize T) mod 2 ^ 32 = next_page_of T a * kPageSize T"
    and "(next_page_of T a * kBlocksPerPage T) mod 2 ^ 32 = next_page_of T a * kBlocksPerPage T"
    and "next_page_of T a * kBlocksPerPage T < kNumBlocks T"
    and "BlockLocation T (next_page_of T a * kBlocksPerPage T) = next_page_of T a * kPageSize T"
    and "2 \<le> kNumPages T \<Longrightarrow> next_page_of T a \<noteq> nat a div kBlocksPerPage T"
proof -
  let ?b = "kBlocksPerPage T" and ?PS = "kPageSize T" and ?P = "kNumPages T"
  let ?np = "next_page_of T a"
  from g have bpp: "0 < ?b" and P: "0 < ?P" and size: "kSize (nvmem T) < 2 ^ 32"
    by (simp_all add: geometry_ok_def)
  have an: "nat a < kNumBlocks T" using a0 a1 by simp
  have "kNumBlocks T \<le> 2 ^ 15" by (rule kNumBlocks_le)
  then have "a < 2 ^ 32" using a1 by simp
  then have u: "u32 a = nat a" using a0 by (simp add: u32_small)
  have cp: "nat a div ?b < ?P" by (rule geom_BlockLocation(4) [OF g an])
  have "?P * ?PS \<le> kSize (nvmem T)" by (rule geom_region [OF g])
  moreover have "?P \<le> ?P * ?PS" using geom_PageSize(1) [OF g] by simp
  ultimately have P32: "?P < 2 ^ 32" using size by linarith
  then have "nat a div ?b + 1 < 2 ^ 32" using cp by linarith
  then show np: "?np = (nat a div ?b + 1) mod ?P"
    by (simp add: next_page_of_def Let_def u)
  show lt: "?np < ?P" unfolding np using P by simp
  have "?np * ?PS < ?P * ?PS"
    using lt geom_PageSize(1) [OF g] by simp
  with geom_region [OF g] size have "?np * ?PS < 2 ^ 32" by linarith
  then show "(?np * ?PS) mod 2 ^ 32 = ?np * ?PS" by simp
  have "?np * ?b \<le> (?P - 1) * ?b" using lt by (intro mult_le_mono1) simp
  with geom_NumBlocks_le(3) [OF g] show nb: "?np * ?b < kNumBlocks T" by linarith
  with \<open>kNumBlocks T \<le> 2 ^ 15\<close> show "(?np * ?b) mod 2 ^ 32 = ?np * ?b" by simp
  show "BlockLocation T (?np * ?b) = ?np * ?PS"
    using geom_BlockLocation(1) [OF g nb] bpp by simp
  show "?np \<noteq> nat a div ?b" if "2 \<le> ?P"
  proof (cases "nat a div ?b + 1 < ?P")
    case True
    then show ?thesis unfolding np by simp
  next
    case False
    with cp have "nat a div ?b + 1 = ?P" by linarith
    then have "?np = 0" "0 < nat a div ?b" unfolding np using that by simp_all
    then show ?thesis by simp
  qed
qed

lemma erased_page_disjoint:
  assumes g: "geometry_ok T" and a0: "0 \<le> a" and a1: "a < int (kNumBlocks T)"
    and P2: "2 \<le> kNumPages T"
  shows "ranges_disjoint (next_page_of T a * kPageSize T) (kPageSize T)
           (BlockLocation T (nat a)) (kBlockSize T)"
proof -
  let ?b = "kBlocksPerPage T" and ?PS = "kPageSize T"
  let ?np = "next_page_of T a"
  have an: "nat a < kNumBlocks T" using a0 a1 by simp
  note l = geom_BlockLocation [OF g an]
  from next_page_geometry(7) [OF g a0 a1 P2]
  consider "?np < nat a div ?b" | "nat a div ?b < ?np" by linarith
  then show ?thesis
  proof cases
    case 1
    then have "(?np + 1) * ?PS \<le> nat a div ?b * ?PS"
      by (intro mult_le_mono1) simp
    with l(2) show ?thesis by (simp add: ranges_disjoint_def)
  next
    case 2
    then have "(nat a div ?b + 1) * ?PS \<le> ?np * ?PS"
      by (intro mult_le_mono1) simp
    with l(3) show ?thesis unfolding ranges_disjoint_def by linarith
  qed
qed


lemma modified_range_none:
  "is_probe op \<Longrightarrow> modified_range op = None"
  "is_read op \<Longrightarrow> modified_range op = None"
  by (cases op; simp)+

lemma modified_range_none_all:
  assumes "list_all is_probe ops \<or> list_all is_read ops" and "op \<in> set ops"
  shows "modified_range op = None"
  using assms by (auto simp: list_all_iff modified_range_none)

lemma no_erase_among:
  assumes "list_all is_probe ops \<or> list_all is_read ops"
  shows "OpErase l sz \<notin> set ops"
  using modified_range_none_all [OF assms, of "OpErase l sz"] by auto

subsection \<open>Claim C4\<close>

text \<open>
  Claim C4. With at least two pages and a block active, every erase of a call of
  \<open>Save\<close> covers the page after the page of the active block (modulo \<open>kNumPages\<close>),
  and every byte range the call erases or writes is disjoint from the bytes of the
  active block, so that block stays on the media from before the erase until after
  the write.
\<close>

theorem Save_spares_active_block:
  assumes g: "geometry_ok T" and P2: "2 \<le> kNumPages T"
    and a0: "0 \<le> active_block_n p" and a1: "active_block_n p < int (kNumBlocks T)"
    and s: "Save T p w d = Some (r, p', w')"
  shows "\<exists>ops. trace w' = trace w @ ops \<and>
           (\<forall>op \<in> set ops. \<forall>l sz.
              (op = OpErase l sz \<longrightarrow>
                 l = (nat (active_block_n p) div kBlocksPerPage T + 1) mod kNumPages T
                       * kPageSize T \<and> sz = kPageSize T) \<and>
              (modified_range op = Some (l, sz) \<longrightarrow>
                 ranges_disjoint l sz (BlockLocation T (nat (active_block_n p))) (kBlockSize T)))"
proof -
  let ?a = "active_block_n p"
  let ?np = "next_page_of T ?a"
  let ?A = "BlockLocation T (nat ?a)" and ?BS = "kBlockSize T"
  from g have n: "0 < kNumBlocks T" by (simp add: geometry_ok_def)
  have an: "nat ?a < kNumBlocks T" and ne: "?a \<noteq> - 1" using a0 a1 by simp_all
  note np = next_page_geometry [OF g a0 a1]
  have er: "ranges_disjoint (?np * kPageSize T) (kPageSize T) ?A ?BS"
    by (rule erased_page_disjoint [OF g a0 a1 P2])
  have wr: "ranges_disjoint (BlockLocation T (u32 m)) ?BS ?A ?BS"
    if "0 \<le> m" "m < int (kNumBlocks T)" "m \<noteq> ?a" for m
  proof -
    have "kNumBlocks T \<le> 2 ^ 15" by (rule kNumBlocks_le)
    then have "u32 m = nat m" using that by (simp add: u32_small)
    moreover have "nat m < kNumBlocks T" "nat m \<noteq> nat ?a" using that a0 by simp_all
    ultimately show ?thesis using blocks_disjoint [OF g _ an] by simp
  qed
  from s n show ?thesis
  proof (cases rule: Save_shape)
    case same
    then show ?thesis by simp
  next
    case (erase_failed probes)
    let ?ops = "probes @ [OpErase (?np * kPageSize T) (kPageSize T)]"
    from erase_failed(5) ne np(3) have "trace w' = trace w @ ?ops" by simp
    moreover have "modified_range op = None" if "op \<in> set probes" for op
      using modified_range_none_all erase_failed(4) that by blast
    ultimately show ?thesis using er np(1) no_erase_among [of probes] erase_failed(4)
      by (intro exI [of _ ?ops]) auto
  next
    case (erased probes q reads)
    let ?n = "int (?np * kBlocksPerPage T)"
    let ?wr = "OpWrite (BlockLocation T (u32 ?n)) (Block_bytes (block (Save_encode T q ?n d))) ?BS"
    let ?ops = "probes @ [OpErase (?np * kPageSize T) (kPageSize T), ?wr] @ reads"
    from erased(5) ne np(3,4) have tr: "trace w' = trace w @ ?ops"
      by (simp add: Save_encode_fields)
    have mr: "modified_range op = None" if "op \<in> set probes \<or> op \<in> set reads" for op
      using modified_range_none_all erased(2,3) that by blast
    have neq: "?n \<noteq> ?a"
    proof
      assume "?n = ?a"
      then have "nat ?a = nat ?n" by (simp only:)
      then have "nat ?a = ?np * kBlocksPerPage T" by (simp only: nat_int)
      then have "nat ?a div kBlocksPerPage T = ?np"
        using g by (simp add: geometry_ok_def)
      with np(7) [OF P2] show False by simp
    qed
    have "?n < int (kNumBlocks T)"
      using np(5) by (simp only: of_nat_less_iff)
    moreover have "0 \<le> ?n" by simp
    ultimately have "ranges_disjoint (BlockLocation T (u32 ?n)) ?BS ?A ?BS"
      using wr neq by blast
    then show ?thesis
      using tr mr er np(1) no_erase_among [of probes] no_erase_among [of reads] erased(2,3)
      by (intro exI [of _ ?ops]) auto
  next
    case (next_free probes m reads)
    let ?wr = "OpWrite (BlockLocation T (u32 m))
                 (Block_bytes (block (Save_encode T (p\<lparr>sequence := sequence p + 1\<rparr>) m d))) ?BS"
    let ?ops = "probes @ [?wr] @ reads"
    from next_free(7) have "trace w' = trace w @ ?ops" by simp
    moreover have "modified_range op = None" if "op \<in> set probes \<or> op \<in> set reads" for op
      using modified_range_none_all next_free(2,3) that by blast
    moreover have "ranges_disjoint (BlockLocation T (u32 m)) ?BS ?A ?BS"
      using next_free(4-6) by (intro wr)
    ultimately show ?thesis
      using no_erase_among [of probes] no_erase_among [of reads] next_free(2,3)
      by (intro exI [of _ ?ops]) auto
  qed
qed

theorem Save_spares_active_block_witness:
  "geometry_ok T3 \<and> 2 \<le> kNumPages T3 \<and>
   Save T3 (fresh\<lparr>active_block_n := 0\<rparr>)
       (start (flash_dev (replicate 15 0) False False False)) [0x42] =
     Some (RESULT_SUCCESS,
           \<lparr>block = \<lparr>data = [66], sequence_n = 1, crc = 35742, padding = []\<rparr>,
            active_block_n = 1, sequence = 1\<rparr>,
           \<lparr>dev = flash_dev (replicate 5 0 @ [66, 1, 0, 158, 139] @ replicate 5 0)
                   False False False,
            trace = [OpWritable 5 5, OpWritable 10 5, OpWritable 0 5, OpErase 5 5,
                     OpWrite 5 [66, 1, 0, 158, 139] 5]\<rparr>) \<and>
   BlockLocation T3 0 = 0 \<and> kBlockSize T3 = 5 \<and>
   ranges_disjoint 5 5 (BlockLocation T3 0) (kBlockSize T3)"
proof -
  have e: "Save T3 (fresh\<lparr>active_block_n := 0\<rparr>)
       (start (flash_dev (replicate 15 0) False False False)) [0x42] =
     Some (RESULT_SUCCESS,
           \<lparr>block = \<lparr>data = [66], sequence_n = 1, crc = 35742, padding = []\<rparr>,
            active_block_n = 1, sequence = 1\<rparr>,
           \<lparr>dev = flash_dev (replicate 5 0 @ [66, 1, 0, 158, 139] @ replicate 5 0)
                   False False False,
            trace = [OpWritable 5 5, OpWritable 10 5, OpWritable 0 5, OpErase 5 5,
                     OpWrite 5 [66, 1, 0, 158, 139] 5]\<rparr>)"
    by (simp add: T3_eval)
  have h: "2 \<le> kNumPages T3" "0 \<le> active_block_n (fresh\<lparr>active_block_n := 0\<rparr>)"
    "active_block_n (fresh\<lparr>active_block_n := 0\<rparr>) < int (kNumBlocks T3)"
    by (simp_all add: T3_geometry)
  from Save_spares_active_block [OF T3_ok h e] e T3_ok h show ?thesis
    by (simp add: T3_geometry T3_locations ranges_disjoint_def)
qed


section \<open>Recovery\<close>

lemma nvmem_Read_pure:
  assumes "reads_pure T (dev w)"
  shows "dev (fst (nvmem_Read T w l n)) = dev w"
    and "snd (nvmem_Read T w l n) = snd (Read (nvmem T) (dev w) l n)"
  using assms by (simp_all add: nvmem_Read_def reads_pure_def split: prod.splits)
     (metis fst_conv)

lemma nvmem_Read_block:
  assumes "reads_pure T (dev w)"
  shows "map_option (Block_of_bytes T) (snd (nvmem_Read T w (BlockLocation T i) (kBlockSize T)))
           = stored_block T (dev w) i"
  by (simp add: nvmem_Read_pure(2) [OF assms] stored_block_def split: option.splits)

lemma Reset_scan_inv:
  assumes "reads_pure T m"
    and "Reset_scan T idxs q w = (ok, q', w')"
    and "dev w = m" and "scan_inv T m q" and "\<forall>i \<in> set idxs. i < kNumBlocks T"
  shows "dev w' = m \<and> scan_inv T m q'"
  using assms(2-)
proof (induction idxs arbitrary: q w)
  case Nil
  then show ?case by simp
next
  case (Cons i rest)
  obtain w1 r where rd: "nvmem_Read T w (BlockLocation T i) (kBlockSize T) = (w1, r)"
    by (cases "nvmem_Read T w (BlockLocation T i) (kBlockSize T)")
  have pure: "reads_pure T (dev w)" using assms(1) Cons.prems(2) by simp
  have w1: "dev w1 = m"
    using nvmem_Read_pure(1) [OF pure, of "BlockLocation T i" "kBlockSize T"] rd Cons.prems(2)
    by simp
  have st: "map_option (Block_of_bytes T) r = stored_block T m i"
    using nvmem_Read_block [OF pure, of i] rd Cons.prems(2) by simp
  show ?case
  proof (cases r)
    case None
    with Cons.prems(1) rd have "q' = q\<lparr>active_block_n := - 1\<rparr>" "w' = w1"
      by (simp_all add: Let_def)
    with w1 show ?thesis by (simp add: scan_inv_def)
  next
    case (Some bytes)
    define b where "b = Block_of_bytes T bytes"
    define q2 where "q2 =
      (if crc b = GetCRC T b \<and>
          (active_block_n q = - 1 \<or> sequence_newer (int (kNumBlocks T)) (sequence_n b) (sequence q))
       then q\<lparr>block := b, active_block_n := int i, sequence := sequence_n b\<rparr>
       else q\<lparr>block := b\<rparr>)"
    from Cons.prems(1) rd Some have rest: "Reset_scan T rest q2 w1 = (ok, q', w')"
      by (auto simp: Let_def q2_def b_def split: if_splits)
    have sb: "stored_block T m i = Some b" using st Some by (simp add: b_def)
    have i: "i < kNumBlocks T" using Cons.prems(4) by simp
    have "scan_inv T m q2"
    proof (cases "crc b = GetCRC T b \<and>
          (active_block_n q = - 1 \<or> sequence_newer (int (kNumBlocks T)) (sequence_n b) (sequence q))")
      case True
      then show ?thesis using sb i by (simp add: q2_def scan_inv_def block_valid_def)
    next
      case False
      then have "q2 = q\<lparr>block := b\<rparr>" unfolding q2_def by (rule if_not_P)
      with Cons.prems(3) show ?thesis by (simp add: scan_inv_def)
    qed
    from Cons.IH [OF rest w1 this] Cons.prems(4) show ?thesis by simp
  qed
qed

lemma Reset_established:
  assumes pure: "reads_pure T (dev w)" and r: "Reset T p w = (RESULT_SUCCESS, p', w')"
  shows "dev w' = dev w"
    and "active_block_n p' = - 1 \<or>
         (0 \<le> active_block_n p' \<and> active_block_n p' < int (kNumBlocks T) \<and>
          stored_block T (dev w') (nat (active_block_n p')) = Some (block p') \<and>
          crc (block p') = GetCRC T (block p') \<and>
          sequence_n (block p') = sequence p')"
proof -
  let ?p0 = "p\<lparr>sequence := 0, active_block_n := - 1\<rparr>"
  obtain ok p1 w1 where sc: "Reset_scan T [0..<kNumBlocks T] ?p0 w = (ok, p1, w1)"
    by (cases "Reset_scan T [0..<kNumBlocks T] ?p0 w")
  have "scan_inv T (dev w) ?p0" by (simp add: scan_inv_def)
  from Reset_scan_inv [OF pure sc refl this]
  have w1: "dev w1 = dev w" and inv: "scan_inv T (dev w) p1" by simp_all
  from r sc have ok: ok by (auto simp: Reset_def Let_def split: bool.splits)
  have both: "dev w' = dev w \<and> (active_block_n p' = - 1 \<or>
         (0 \<le> active_block_n p' \<and> active_block_n p' < int (kNumBlocks T) \<and>
          stored_block T (dev w') (nat (active_block_n p')) = Some (block p') \<and>
          crc (block p') = GetCRC T (block p') \<and>
          sequence_n (block p') = sequence p'))"
  proof (cases "active_block_n p1 = - 1")
    case True
    with r sc ok have "p' = p1" "w' = w1" by (simp_all add: Reset_def Let_def)
    with True w1 show ?thesis by simp
  next
    case False
    with inv obtain b where a: "0 \<le> active_block_n p1" "active_block_n p1 < int (kNumBlocks T)"
      and b: "stored_block T (dev w) (nat (active_block_n p1)) = Some b" "block_valid T b"
        "sequence_n b = sequence p1"
      by (auto simp: scan_inv_def)
    have "kNumBlocks T \<le> 2 ^ 15" by (rule kNumBlocks_le)
    then have u: "u32 (active_block_n p1) = nat (active_block_n p1)"
      using a by (simp add: u32_small)
    let ?loc = "BlockLocation T (nat (active_block_n p1))"
    obtain w2 rr where rd: "nvmem_Read T w1 ?loc (kBlockSize T) = (w2, rr)"
      by (cases "nvmem_Read T w1 ?loc (kBlockSize T)")
    have pure1: "reads_pure T (dev w1)" using pure w1 by simp
    have w2: "dev w2 = dev w"
      using nvmem_Read_pure(1) [OF pure1, of ?loc "kBlockSize T"] rd w1 by simp
    have "map_option (Block_of_bytes T) rr = Some b"
      using nvmem_Read_block [OF pure1, of "nat (active_block_n p1)"] rd w1 b(1) by simp
    then obtain bytes where rr: "rr = Some bytes" and bb: "Block_of_bytes T bytes = b" by auto
    from r sc ok False rd rr u have "p' = p1\<lparr>block := b\<rparr>" "w' = w2"
      by (simp_all add: Reset_def Let_def bb)
    with a b w2 show ?thesis by (simp add: block_valid_def)
  qed
  from both show "dev w' = dev w" by blast
  from both show "active_block_n p' = - 1 \<or>
         (0 \<le> active_block_n p' \<and> active_block_n p' < int (kNumBlocks T) \<and>
          stored_block T (dev w') (nat (active_block_n p')) = Some (block p') \<and>
          crc (block p') = GetCRC T (block p') \<and>
          sequence_n (block p') = sequence p')" by blast
qed


lemma Reset_scan_none_valid:
  assumes "reads_pure T m"
    and "\<forall>i \<in> set idxs. \<exists>b. stored_block T m i = Some b \<and> \<not> block_valid T b"
    and "dev w = m"
  shows "\<exists>q' w'. Reset_scan T idxs q w = (True, q', w') \<and>
           active_block_n q' = active_block_n q \<and> sequence q' = sequence q"
  using assms(2,3)
proof (induction idxs arbitrary: q w)
  case Nil
  then show ?case by simp
next
  case (Cons i rest)
  obtain w1 r where rd: "nvmem_Read T w (BlockLocation T i) (kBlockSize T) = (w1, r)"
    by (cases "nvmem_Read T w (BlockLocation T i) (kBlockSize T)")
  have pure: "reads_pure T (dev w)" using assms(1) Cons.prems(2) by simp
  have w1: "dev w1 = m"
    using nvmem_Read_pure(1) [OF pure, of "BlockLocation T i" "kBlockSize T"] rd Cons.prems(2)
    by simp
  have st: "map_option (Block_of_bytes T) r = stored_block T m i"
    using nvmem_Read_block [OF pure, of i] rd Cons.prems(2) by simp
  from Cons.prems(1) obtain b where b: "stored_block T m i = Some b" "\<not> block_valid T b"
    by auto
  with st obtain bytes where r: "r = Some bytes" and bb: "Block_of_bytes T bytes = b" by auto
  from Cons.prems(1) have "\<forall>i \<in> set rest. \<exists>b. stored_block T m i = Some b \<and> \<not> block_valid T b"
    by simp
  from Cons.IH [OF this w1, of "q\<lparr>block := b\<rparr>"] obtain q' w' where
    "Reset_scan T rest (q\<lparr>block := b\<rparr>) w1 = (True, q', w')"
    "active_block_n q' = active_block_n q" "sequence q' = sequence q" by auto
  with rd r bb b(2) show ?case
    by (simp add: Let_def block_valid_def)
qed

lemma Reset_none_valid:
  assumes "reads_pure T (dev w)"
    and "\<forall>i < kNumBlocks T. \<exists>b. stored_block T (dev w) i = Some b \<and> \<not> block_valid T b"
  shows "\<exists>p' w'. Reset T p w = (RESULT_SUCCESS, p', w') \<and> active_block_n p' = - 1"
proof -
  from assms(2) have "\<forall>i \<in> set [0..<kNumBlocks T].
      \<exists>b. stored_block T (dev w) i = Some b \<and> \<not> block_valid T b" by simp
  from Reset_scan_none_valid [OF assms(1) this refl, of "p\<lparr>sequence := 0, active_block_n := - 1\<rparr>"]
  obtain q' w' where
    "Reset_scan T [0..<kNumBlocks T] (p\<lparr>sequence := 0, active_block_n := - 1\<rparr>) w = (True, q', w')"
    "active_block_n q' = - 1" by auto
  then show ?thesis by (simp add: Reset_def Let_def)
qed

subsection \<open>Claim C3\<close>

text \<open>
  Claim C3. On a device whose reads are observations, whatever the region holds:
  when \<open>Init\<close> returns \<open>SUCCESS\<close>, either \<open>active_block_n\<close> is \<open>-1\<close>, or it is the index
  of a block of the region, the cached block is the block stored there, its \<open>crc\<close>
  field equals the CRC recomputed over its data and sequence number with the
  version seed, and its \<open>sequence_n\<close> equals the member \<open>sequence\<close>.
\<close>

theorem Init_establishes_active:
  assumes "reads_pure T (dev w)" and "Init T p w = (RESULT_SUCCESS, p', w')"
  shows "active_block_n p' = - 1 \<or>
         (0 \<le> active_block_n p' \<and> active_block_n p' < int (kNumBlocks T) \<and>
          stored_block T (dev w') (nat (active_block_n p')) = Some (block p') \<and>
          crc (block p') = GetCRC T (block p') \<and>
          sequence_n (block p') = sequence p')"
  using assms(2) unfolding Init_def by (rule Reset_established(2) [OF assms(1)])

lemma flash_reads_pure: "Read (nvmem T) = flash_Read \<Longrightarrow> reads_pure T m"
  by (simp add: reads_pure_def flash_Read_def)

theorem Init_establishes_active_witness:
  "reads_pure T3 (flash_dev ([66, 0, 0, 175, 184] @ replicate 10 255) False False False) \<and>
   Init T3 fresh (start (flash_dev ([66, 0, 0, 175, 184] @ replicate 10 255) False False False)) =
     (RESULT_SUCCESS,
      \<lparr>block = \<lparr>data = [66], sequence_n = 0, crc = 47279, padding = []\<rparr>,
       active_block_n = 0, sequence = 0\<rparr>,
      \<lparr>dev = flash_dev ([66, 0, 0, 175, 184] @ replicate 10 255) False False False,
       trace = [OpRead 0 5, OpRead 5 5, OpRead 10 5, OpRead 0 5]\<rparr>) \<and>
   stored_block T3 (flash_dev ([66, 0, 0, 175, 184] @ replicate 10 255) False False False) 0 =
     Some \<lparr>data = [66], sequence_n = 0, crc = 47279, padding = []\<rparr> \<and>
   GetCRC T3 \<lparr>data = [66], sequence_n = 0, crc = 47279, padding = []\<rparr> = 47279"
proof -
  let ?m = "flash_dev ([66, 0, 0, 175, 184] @ replicate 10 255) False False False"
  have pure: "reads_pure T3 (dev (start ?m))"
    by (rule flash_reads_pure) (simp add: T3_fields)
  have e: "Init T3 fresh (start ?m) =
     (RESULT_SUCCESS,
      \<lparr>block = \<lparr>data = [66], sequence_n = 0, crc = 47279, padding = []\<rparr>,
       active_block_n = 0, sequence = 0\<rparr>,
      \<lparr>dev = ?m, trace = [OpRead 0 5, OpRead 5 5, OpRead 10 5, OpRead 0 5]\<rparr>)"
    by (simp add: T3_eval)
  from Init_establishes_active [OF pure e] pure e show ?thesis
    by (simp add: start_def)
qed

subsection \<open>Claim C6\<close>

text \<open>
  Claim C6. On a device whose reads are observations, if every block of the region
  can be read and none passes the CRC test (a virgin region, for one), \<open>Init\<close> returns
  \<open>SUCCESS\<close> with no block active, and the \<open>Load\<close> that follows returns \<open>FAIL_NO_DATA\<close>
  and leaves its output argument as it was. \<open>Load\<close> is a function of the instance
  alone: it makes no NVMem call.
\<close>

theorem Init_no_valid_block:
  assumes "reads_pure T (dev w)"
    and "\<forall>i < kNumBlocks T. \<exists>b. stored_block T (dev w) i = Some b \<and> \<not> block_valid T b"
  shows "\<exists>p' w'. Init T p w = (RESULT_SUCCESS, p', w') \<and> active_block_n p' = - 1 \<and>
           Load T p' out = (RESULT_FAIL_NO_DATA, out)"
  using Reset_none_valid [OF assms, of p] by (auto simp: Init_def Load_def)

lemma all_less_3: "(\<forall>i<3. P (i::nat)) \<longleftrightarrow> P 0 \<and> P (Suc 0) \<and> P 2"
  by (auto simp: less_Suc_eq numeral_3_eq_3 numeral_2_eq_2)

theorem Init_no_valid_block_witness:
  "reads_pure T3 (flash_dev (replicate 15 255) False False False) \<and>
   kNumBlocks T3 = 3 \<and>
   stored_block T3 (flash_dev (replicate 15 255) False False False) 0 =
     Some \<lparr>data = [255], sequence_n = 65535, crc = 65535, padding = []\<rparr> \<and>
   stored_block T3 (flash_dev (replicate 15 255) False False False) 1 =
     Some \<lparr>data = [255], sequence_n = 65535, crc = 65535, padding = []\<rparr> \<and>
   stored_block T3 (flash_dev (replicate 15 255) False False False) 2 =
     Some \<lparr>data = [255], sequence_n = 65535, crc = 65535, padding = []\<rparr> \<and>
   \<not> block_valid T3 \<lparr>data = [255], sequence_n = 65535, crc = 65535, padding = []\<rparr> \<and>
   Init T3 fresh (start (flash_dev (replicate 15 255) False False False)) =
     (RESULT_SUCCESS,
      \<lparr>block = \<lparr>data = [255], sequence_n = 65535, crc = 65535, padding = []\<rparr>,
       active_block_n = - 1, sequence = 0\<rparr>,
      \<lparr>dev = flash_dev (replicate 15 255) False False False,
       trace = [OpRead 0 5, OpRead 5 5, OpRead 10 5]\<rparr>) \<and>
   Load T3 \<lparr>block = \<lparr>data = [255], sequence_n = 65535, crc = 65535, padding = []\<rparr>,
            active_block_n = - 1, sequence = 0\<rparr> [7] = (RESULT_FAIL_NO_DATA, [7])"
proof -
  let ?m = "flash_dev (replicate 15 255) False False False"
  let ?b = "\<lparr>data = [255], sequence_n = 65535, crc = 65535, padding = []\<rparr>"
  have pure: "reads_pure T3 (dev (start ?m))"
    by (rule flash_reads_pure) (simp add: T3_fields)
  have st: "\<forall>i < kNumBlocks T3. stored_block T3 ?m i = Some ?b"
    by (simp add: T3_geometry all_less_3 stored_block_def T3_eval)
  have inv: "\<not> block_valid T3 ?b"
    by (simp add: block_valid_def T3_eval)
  have e: "Init T3 fresh (start ?m) =
     (RESULT_SUCCESS, \<lparr>block = ?b, active_block_n = - 1, sequence = 0\<rparr>,
      \<lparr>dev = ?m, trace = [OpRead 0 5, OpRead 5 5, OpRead 10 5]\<rparr>)"
    by (simp add: T3_eval)
  have "\<forall>i < kNumBlocks T3. \<exists>b. stored_block T3 (dev (start ?m)) i = Some b \<and> \<not> block_valid T3 b"
    using st inv by (simp add: start_def)
  moreover have "kNumBlocks T3 = 3" by (simp add: T3_geometry)
  moreover have "stored_block T3 ?m 0 = Some ?b" "stored_block T3 ?m 1 = Some ?b"
    "stored_block T3 ?m 2 = Some ?b"
    using st by (simp_all add: T3_geometry)
  ultimately show ?thesis
    using Init_no_valid_block [OF pure, of fresh "[7]"] pure inv e
    by (simp add: start_def Load_def)
qed


section \<open>Round trip of a record through the media\<close>

subsection \<open>The block codec\<close>

lemma word_le16_le16: "word_le16 (ucast v) (ucast (drop_bit 8 v)) = (v :: u16)"
  unfolding word_le16_def
  by (rule bit_word_eqI) (auto simp: bit_simps)

lemma length_le16: "length (le16 v) = 2"
  by (simp add: le16_def)

lemma length_Block_bytes:
  "length (Block_bytes b) = length (data b) + 4 + length (padding b)"
  by (simp add: Block_bytes_def length_le16)

lemma Block_of_bytes_Block_bytes:
  assumes "length (data b) = sizeof_TData T"
  shows "Block_of_bytes T (Block_bytes b) = b"
proof -
  let ?n = "sizeof_TData T"
  have nth: "Block_bytes b ! ?n = ucast (sequence_n b)"
    "Block_bytes b ! Suc ?n = ucast (drop_bit 8 (sequence_n b))"
    "Block_bytes b ! Suc (Suc ?n) = ucast (crc b)"
    "Block_bytes b ! (?n + 3) = ucast (drop_bit 8 (crc b))"
    using assms by (simp_all add: Block_bytes_def le16_def nth_append)
  have "take ?n (Block_bytes b) = data b" "drop (?n + 4) (Block_bytes b) = padding b"
    using assms by (simp_all add: Block_bytes_def le16_def)
  then show ?thesis
    by (simp add: Block_of_bytes_def Let_def nth word_le16_le16)
qed

lemma GetCRC_data_sequence:
  assumes "length (data b) = sizeof_TData T"
  shows "GetCRC T b =
           Process (ucast (datatype_version T) OR push_bit 8 (NOT (ucast (datatype_version T))))
             (data b @ le16 (sequence_n b))"
  using assms by (simp add: GetCRC_def Let_def Block_bytes_def length_le16)

lemma Save_encode_valid:
  assumes "sizeof_TData T \<le> length d"
  shows "block_valid T (block (Save_encode T p n d))"
proof -
  let ?b = "block (Save_encode T p n d)"
  have len: "length (data ?b) = sizeof_TData T"
    using assms by (simp add: Save_encode_fields)
  define b2 where "b2 = (block p)\<lparr>data := take (sizeof_TData T) d,
      padding := replicate (kBlockPaddingSize T) (kFillByte (nvmem T)),
      sequence_n := sequence p\<rparr>"
  have b: "?b = b2\<lparr>crc := GetCRC T b2\<rparr>"
    by (simp add: Save_encode_def Let_def b2_def)
  have "length (data b2) = sizeof_TData T" using assms by (simp add: b2_def)
  then have "GetCRC T (b2\<lparr>crc := GetCRC T b2\<rparr>) = GetCRC T b2"
    by (simp add: GetCRC_data_sequence)
  then show ?thesis by (simp add: block_valid_def b)
qed

lemma Save_encode_bytes:
  assumes "geometry_ok T" and "sizeof_TData T \<le> length d"
  shows "length (Block_bytes (block (Save_encode T p n d))) = kBlockSize T"
    and "Block_of_bytes T (Block_bytes (block (Save_encode T p n d))) = block (Save_encode T p n d)"
proof -
  show "length (Block_bytes (block (Save_encode T p n d))) = kBlockSize T"
    using assms(2) by (simp add: length_Block_bytes Save_encode_fields geom_BlockSize(1) [OF assms(1)])
  show "Block_of_bytes T (Block_bytes (block (Save_encode T p n d))) = block (Save_encode T p n d)"
    using assms(2) by (intro Block_of_bytes_Block_bytes) (simp add: Save_encode_fields)
qed

subsection \<open>The flash device\<close>

lemma flash_stored_block:
  assumes "flash_driver T" and "read_fails m = False"
    and "BlockLocation T i + kBlockSize T \<le> length (cells m)"
  shows "stored_block T m i =
           Some (Block_of_bytes T (take (kBlockSize T) (drop (BlockLocation T i) (cells m))))"
  using assms by (simp add: stored_block_def flash_driver_def flash_Read_def)

lemma flash_all_stored:
  assumes "flash_driver T" and "geometry_ok T" and "healthy T m" and "i < kNumBlocks T"
  shows "\<exists>b. stored_block T m i = Some b"
proof -
  have "BlockLocation T i + kBlockSize T \<le> length (cells m)"
    using geom_BlockLocation(5) [OF assms(2,4)] assms(3) by (simp add: healthy_def)
  with flash_stored_block [OF assms(1)] assms(3) show ?thesis by (simp add: healthy_def)
qed

lemma flash_Writable_dev:
  assumes "flash_driver T"
  shows "dev (fst (nvmem_Writable T w l n)) = dev w"
  using assms by (simp add: nvmem_Writable_def flash_driver_def flash_Writable_def)

lemma flash_Erase_healthy:
  assumes "flash_driver T" and "healthy T (dev w)"
  shows "healthy T (dev (fst (nvmem_Erase T w l n)))"
  using assms by (simp add: nvmem_Erase_def flash_driver_def flash_Erase_def healthy_def)

lemma flash_Write_written:
  assumes "flash_driver T" and "healthy T (dev w)"
    and "nvmem_Write T w (BlockLocation T i) src (kBlockSize T) = (w', True)"
    and "length src = kBlockSize T"
  shows "healthy T (dev w')" and "stored_block T (dev w') i = Some (Block_of_bytes T src)"
proof -
  let ?l = "BlockLocation T i" and ?s = "kBlockSize T"
  from assms(1,3) have ok: "?l + ?s \<le> length (cells (dev w))"
    and w': "dev w' = (dev w)\<lparr>cells := take ?l (cells (dev w)) @ take ?s src @
                                   drop (?l + ?s) (cells (dev w))\<rparr>"
    by (auto simp: nvmem_Write_def flash_driver_def flash_Write_def split: if_splits)
  from ok assms(4) have len: "length (cells (dev w')) = length (cells (dev w))"
    by (simp add: w')
  with assms(2) show h: "healthy T (dev w')" by (simp add: healthy_def w')
  have "take ?s (drop ?l (cells (dev w'))) = src"
    using ok assms(4) by (simp add: w')
  moreover have "?l + ?s \<le> length (cells (dev w'))" using ok len by simp
  ultimately show "stored_block T (dev w') i = Some (Block_of_bytes T src)"
    using flash_stored_block [OF assms(1), of "dev w'" i] h by (simp add: healthy_def)
qed

lemma flash_NextWritableBlock_loop_dev:
  assumes "NextWritableBlock_loop T cur nxt w = Some y"
  shows "flash_driver T \<longrightarrow> dev (snd y) = dev w"
proof (rule NextWritableBlock_loop.raw_induct
    [where P = "\<lambda>T c n w y. flash_driver T \<longrightarrow> dev (snd y) = dev w", OF _ assms])
  fix loop :: "flash tparams \<Rightarrow> int \<Rightarrow> int \<Rightarrow> flash world \<Rightarrow> (int \<times> flash world) option"
  fix T c n w y
  assume IH: "\<And>T c n w y. loop T c n w = Some y \<Longrightarrow> flash_driver T \<longrightarrow> dev (snd y) = dev w"
  assume eq: "(let next_block_n' = int (u32 (n + 1) mod kNumBlocks T)
      in case nvmem_Writable T w (BlockLocation T (u32 next_block_n')) (kBlockSize T) of
         (w', writable) \<Rightarrow>
           if writable then Some (next_block_n', w')
           else if next_block_n' \<noteq> c then loop T c next_block_n' w'
                else Some (next_block_n', w')) = Some y"
  define n' where "n' = int (u32 (n + 1) mod kNumBlocks T)"
  obtain w1 wr where pr:
    "nvmem_Writable T w (BlockLocation T (u32 n')) (kBlockSize T) = (w1, wr)"
    by (cases "nvmem_Writable T w (BlockLocation T (u32 n')) (kBlockSize T)")
  show "flash_driver T \<longrightarrow> dev (snd y) = dev w"
  proof
    assume f: "flash_driver T"
    have w1: "dev w1 = dev w"
      using flash_Writable_dev [OF f, of w "BlockLocation T (u32 n')" "kBlockSize T"] pr by simp
    show "dev (snd y) = dev w"
    proof (cases "wr \<or> n' = c")
      case True
      with eq pr have "y = (n', w1)"
        by (auto simp: Let_def n'_def [symmetric] split: if_splits)
      with w1 show ?thesis by simp
    next
      case False
      with eq pr have "loop T c n' w1 = Some y"
        by (auto simp: Let_def n'_def [symmetric])
      from IH [OF this] f w1 show ?thesis by simp
    qed
  qed
qed

lemma flash_NextWritableBlock_dev:
  assumes "flash_driver T" and "NextWritableBlock T a w = Some (n, w')"
  shows "dev w' = dev w"
proof -
  from assms(2) obtain c y where "NextWritableBlock_loop T c c w = Some y" "w' = snd y"
    by (auto simp: NextWritableBlock_def Let_def split: option.splits prod.splits)
  with flash_NextWritableBlock_loop_dev assms(1) show ?thesis by blast
qed


subsection \<open>What a successful Save leaves\<close>

lemma Save_write_success:
  assumes "Save_write T q w n d = (RESULT_SUCCESS, p', w')"
  shows "p' = Save_encode T q n d"
    and "nvmem_Write T w (BlockLocation T (u32 n)) (Block_bytes (block (Save_encode T q n d)))
           (kBlockSize T) = (w', True)"
  using assms
  by (auto simp: Save_write_def Let_def Save_encode_fields split: prod.splits bool.splits)

lemma coherent_data_length:
  assumes f: "flash_driver T" and g: "geometry_ok T" and h: "healthy T m"
    and c: "cache_coherent T p m" and a: "active_block_n p \<noteq> - 1"
  shows "length (data (block p)) = sizeof_TData T"
proof -
  from c a have r: "0 \<le> active_block_n p" "active_block_n p < int (kNumBlocks T)"
    and st: "stored_block T m (nat (active_block_n p)) = Some (block p)"
    by (auto simp: cache_coherent_def)
  have an: "nat (active_block_n p) < kNumBlocks T" using r by simp
  let ?l = "BlockLocation T (nat (active_block_n p))"
  have fit: "?l + kBlockSize T \<le> length (cells m)"
    using geom_BlockLocation(5) [OF g an] h by (simp add: healthy_def)
  from flash_stored_block [OF f _ fit] h st
  have "block p = Block_of_bytes T (take (kBlockSize T) (drop ?l (cells m)))"
    by (simp add: healthy_def)
  then have "length (data (block p)) =
      min (min (kBlockSize T) (sizeof_TData T)) (length (cells m) - ?l)"
    by (simp add: Block_of_bytes_def Let_def)
  moreover have "sizeof_TData T \<le> kBlockSize T"
    using geom_BlockSize(1) [OF g] by simp
  ultimately show ?thesis using fit by arith
qed

lemma Save_success_flash:
  assumes f: "flash_driver T" and g: "geometry_ok T" and h: "healthy T (dev w)"
    and c: "cache_coherent T p (dev w)" and len: "length d = sizeof_TData T"
    and s: "Save T p w d = Some (RESULT_SUCCESS, p', w')"
  shows "healthy T (dev w') \<and> cache_coherent T p' (dev w') \<and>
         active_block_n p' \<noteq> - 1 \<and> data (block p') = d"
proof (cases "DataIsSame T p d")
  case True
  with s have e: "p' = p" "w' = w" by (simp_all add: Save_def)
  from True have a: "active_block_n p \<noteq> - 1"
    and t: "take (sizeof_TData T) (data (block p)) = take (sizeof_TData T) d"
    by (simp_all add: DataIsSame_def)
  from coherent_data_length [OF f g h c a] t len have "data (block p) = d" by simp
  with e h c a show ?thesis by simp
next
  case False
  from g have n0: "0 < kNumBlocks T" by (simp add: geometry_ok_def)
  have N15: "kNumBlocks T \<le> 2 ^ 15" by (rule kNumBlocks_le)
  from False s obtain n w1 where nw: "NextWritableBlock T (active_block_n p) w = Some (n, w1)"
    by (auto simp: Save_def split: option.splits)
  have w1: "dev w1 = dev w" by (rule flash_NextWritableBlock_dev [OF f nw])
  from NextWritableBlock_result [OF nw n0]
  have n: "n = - 1 \<or> (0 \<le> n \<and> n < int (kNumBlocks T))" by blast
  have written: "healthy T (dev w') \<and> cache_coherent T p' (dev w') \<and>
         active_block_n p' \<noteq> - 1 \<and> data (block p') = d"
    if sw: "Save_write T q w2 m d = (RESULT_SUCCESS, p', w')"
      and h2: "healthy T (dev w2)" and m: "0 \<le> m" "m < int (kNumBlocks T)" for q w2 m
  proof -
    let ?p2 = "Save_encode T q m d"
    have u: "u32 m = nat m" using m N15 by (simp add: u32_small)
    have le: "sizeof_TData T \<le> length d" using len by simp
    from Save_write_success [OF sw] u have p': "p' = ?p2"
      and wr: "nvmem_Write T w2 (BlockLocation T (nat m)) (Block_bytes (block ?p2)) (kBlockSize T)
                 = (w', True)" by simp_all
    from flash_Write_written [OF f h2 wr Save_encode_bytes(1) [OF g le]]
    have "healthy T (dev w')" "stored_block T (dev w') (nat m) = Some (block ?p2)"
      by (simp_all add: Save_encode_bytes(2) [OF g le])
    moreover have "block_valid T (block ?p2)" by (rule Save_encode_valid [OF le])
    ultimately show ?thesis
      using m len by (simp add: p' cache_coherent_def Save_encode_fields)
  qed
  show ?thesis
  proof (cases "n = - 1")
    case nfree: False
    with s False nw have "Save_write T (p\<lparr>sequence := sequence p + 1\<rparr>) w1 n d
        = (RESULT_SUCCESS, p', w')"
      by (simp add: Save_def)
    from written [OF this] h w1 n nfree show ?thesis by simp
  next
    case full: True
    show ?thesis
    proof (cases "active_block_n p = - 1")
      case none: True
      let ?er = "nvmem_Erase T w1 0 ((kNumPages T * kPageSize T) mod 2 ^ 32)"
      from s False nw full none have sw:
        "Save_write T (p\<lparr>sequence := 0\<rparr>) (fst ?er) 0 d = (RESULT_SUCCESS, p', w')"
        by (auto simp: Save_def split: prod.splits bool.splits)
      have "healthy T (dev (fst ?er))"
        using flash_Erase_healthy [OF f] h w1 by simp
      from written [OF sw this] n0 show ?thesis by simp
    next
      case act: False
      with c have r: "0 \<le> active_block_n p" "active_block_n p < int (kNumBlocks T)"
        by (auto simp: cache_coherent_def)
      note np = next_page_geometry [OF g r]
      let ?np = "next_page_of T (active_block_n p)"
      let ?er = "nvmem_Erase T w1 ((?np * kPageSize T) mod 2 ^ 32) (kPageSize T)"
      from s False nw full act have sw:
        "Save_write T (p\<lparr>sequence := sequence p + 1\<rparr>) (fst ?er)
           (int ((?np * kBlocksPerPage T) mod 2 ^ 32)) d = (RESULT_SUCCESS, p', w')"
        by (auto simp: Save_def Let_def split: prod.splits bool.splits)
      have "healthy T (dev (fst ?er))"
        using flash_Erase_healthy [OF f] h w1 by simp
      moreover have "int ((?np * kBlocksPerPage T) mod 2 ^ 32) < int (kNumBlocks T)"
        using np(5) by (simp only: np(4) of_nat_less_iff)
      ultimately show ?thesis using written [OF sw] by simp
    qed
  qed
qed


subsection \<open>The scan finds the newest block\<close>

lemma newer_older:
  fixes s t :: u16
  assumes "0 < n" and "n \<le> 2 ^ 15" and "0 < unat (s - t)" and "unat (s - t) < n"
  shows "sequence_newer (int n) s t" and "\<not> sequence_newer (int n) t s"
proof -
  from sequence_newer_in_window [OF assms(1,2), of s t] assms(3,4)
  show "sequence_newer (int n) s t" by simp
  define d where "d = unat (s - t)"
  define x where "x = uint s"
  define y where "y = uint t"
  have x: "0 \<le> x" "x < 65536" and y: "0 \<le> y" "y < 65536"
    using uint_bounded [of s] uint_bounded [of t] by (simp_all add: x_def y_def)
  have d: "int d = (if y \<le> x then x - y else x - y + 65536)"
    unfolding d_def x_def y_def by (rule unat_sub_cases)
  have n: "0 < int d" "int d < int n" "int n \<le> 32768"
    using assms(2-4) unfolding d_def [symmetric] by simp_all
  have "\<not> (y > x \<and> y - x < int n \<or> y < x \<and> x - y \<ge> int n)"
    using x y n unfolding d by (auto split: if_splits)
  then show "\<not> sequence_newer (int n) t s"
    unfolding sequence_newer_def x_def y_def by simp
qed

text \<open>
  The state of the scan before it visits block \<open>k\<close>, when block \<open>a\<close> with sequence
  number \<open>s\<close> is the newest of the region: past \<open>a\<close> the candidate is \<open>a\<close>; before \<open>a\<close>
  it is none, or a valid block visited so far.
\<close>

lemma Reset_scan_newest:
  assumes pure: "reads_pure T m"
    and readable: "\<forall>j < kNumBlocks T. \<exists>b. stored_block T m j = Some b"
    and a: "a < kNumBlocks T" "stored_block T m a = Some bA" "block_valid T bA"
      "sequence_n bA = s"
    and newest: "newest_on_media T m (int a) s"
    and k: "k \<le> kNumBlocks T" and w: "dev w = m"
    and J1: "a < k \<longrightarrow> active_block_n q = int a \<and> sequence q = s"
    and J2: "k \<le> a \<longrightarrow> active_block_n q = - 1 \<or>
        (\<exists>j<k. active_block_n q = int j \<and>
           (\<exists>b. stored_block T m j = Some b \<and> block_valid T b \<and> sequence_n b = sequence q))"
  shows "\<exists>q' w'. Reset_scan T [k..<kNumBlocks T] q w = (True, q', w') \<and>
           active_block_n q' = int a \<and> sequence q' = s \<and> dev w' = m"
  using k w J1 J2
proof (induction "kNumBlocks T - k" arbitrary: k q w)
  case 0
  then have "k = kNumBlocks T" by simp
  with a(1) "0.prems" show ?case by simp
next
  case (Suc x)
  let ?N = "kNumBlocks T"
  from Suc.hyps(2) have kN: "k < ?N" by simp
  have N: "0 < ?N" "?N \<le> 2 ^ 15" using kN kNumBlocks_le by simp_all
  have upt: "[k..<?N] = k # [Suc k..<?N]" using kN by (rule upt_conv_Cons)
  obtain w1 r where rd: "nvmem_Read T w (BlockLocation T k) (kBlockSize T) = (w1, r)"
    by (cases "nvmem_Read T w (BlockLocation T k) (kBlockSize T)")
  have pure': "reads_pure T (dev w)" using pure Suc.prems(2) by simp
  have w1: "dev w1 = m"
    using nvmem_Read_pure(1) [OF pure', of "BlockLocation T k" "kBlockSize T"] rd Suc.prems(2)
    by simp
  from readable kN obtain b where sb: "stored_block T m k = Some b" by blast
  have "map_option (Block_of_bytes T) r = Some b"
    using nvmem_Read_block [OF pure', of k] rd Suc.prems(2) sb by simp
  then obtain bytes where r: "r = Some bytes" and bb: "Block_of_bytes T bytes = b" by auto
  define accept where "accept \<longleftrightarrow> crc b = GetCRC T b \<and>
      (active_block_n q = - 1 \<or> sequence_newer (int ?N) (sequence_n b) (sequence q))"
  define q2 where "q2 =
      (if accept then q\<lparr>block := b, active_block_n := int k, sequence := sequence_n b\<rparr>
       else q\<lparr>block := b\<rparr>)"
  have step: "Reset_scan T [k..<?N] q w = Reset_scan T [Suc k..<?N] q2 w1"
    unfolding upt by (simp add: rd r bb Let_def q2_def accept_def)
  have older: "0 < unat (s - sequence_n c) \<and> unat (s - sequence_n c) < ?N"
    if "j < ?N" "j \<noteq> a" "stored_block T m j = Some c" "block_valid T c" for j c
    using newest that by (simp add: newest_on_media_def)
  have J1': "a < Suc k \<longrightarrow> active_block_n q2 = int a \<and> sequence q2 = s"
  proof
    assume "a < Suc k"
    show "active_block_n q2 = int a \<and> sequence q2 = s"
    proof (cases "k = a")
      case True
      with sb a(2) have b: "b = bA" by simp
      have accept
      proof (cases "active_block_n q = - 1")
        case True
        with a(3) b show ?thesis by (simp add: accept_def block_valid_def)
      next
        case False
        with Suc.prems(4) \<open>k = a\<close> obtain j c where j: "j < k" "active_block_n q = int j"
          "stored_block T m j = Some c" "block_valid T c" "sequence_n c = sequence q"
          by auto
        from older [OF _ _ j(3,4)] j(1) \<open>k = a\<close> kN
        have "0 < unat (s - sequence q)" "unat (s - sequence q) < ?N" by (simp_all add: j(5))
        from newer_older(1) [OF N this] a(3,4) b show ?thesis
          by (simp add: accept_def block_valid_def)
      qed
      then show ?thesis using True b a(4) by (simp add: q2_def)
    next
      case False
      with \<open>a < Suc k\<close> have ak: "a < k" by simp
      with Suc.prems(3) have q: "active_block_n q = int a" "sequence q = s" by simp_all
      have "\<not> accept"
      proof
        assume accept
        then have v: "block_valid T b" and nw: "sequence_newer (int ?N) (sequence_n b) s"
          using q by (simp_all add: accept_def block_valid_def)
        from older [OF kN False sb v] newer_older(2) [OF N] nw show False by blast
      qed
      with q show ?thesis by (simp add: q2_def)
    qed
  qed
  have J2': "Suc k \<le> a \<longrightarrow> active_block_n q2 = - 1 \<or>
        (\<exists>j<Suc k. active_block_n q2 = int j \<and>
           (\<exists>c. stored_block T m j = Some c \<and> block_valid T c \<and> sequence_n c = sequence q2))"
  proof
    assume "Suc k \<le> a"
    show "active_block_n q2 = - 1 \<or>
        (\<exists>j<Suc k. active_block_n q2 = int j \<and>
           (\<exists>c. stored_block T m j = Some c \<and> block_valid T c \<and> sequence_n c = sequence q2))"
    proof (cases accept)
      case True
      then have "block_valid T b" by (simp add: accept_def block_valid_def)
      with True sb show ?thesis by (auto simp: q2_def)
    next
      case False
      from \<open>Suc k \<le> a\<close> Suc.prems(4) have "active_block_n q = - 1 \<or>
        (\<exists>j<k. active_block_n q = int j \<and>
           (\<exists>b. stored_block T m j = Some b \<and> block_valid T b \<and> sequence_n b = sequence q))"
        by simp
      with False show ?thesis by (auto simp: q2_def less_Suc_eq)
    qed
  qed
  have "x = ?N - Suc k" using Suc.hyps(2) by simp
  from Suc.hyps(1) [OF this _ w1 J1' J2'] kN show ?case
    unfolding step by simp
qed

lemma Init_finds_newest:
  assumes pure: "reads_pure T m"
    and readable: "\<forall>j < kNumBlocks T. \<exists>b. stored_block T m j = Some b"
    and a: "a < kNumBlocks T" "stored_block T m a = Some bA" "block_valid T bA"
      "sequence_n bA = s"
    and newest: "newest_on_media T m (int a) s"
    and w: "dev w = m"
  shows "\<exists>p'' w''. Init T p0 w = (RESULT_SUCCESS, p'', w'') \<and>
           active_block_n p'' = int a \<and> sequence p'' = s \<and> block p'' = bA"
proof -
  let ?q = "p0\<lparr>sequence := 0, active_block_n := - 1\<rparr>"
  have "\<exists>q' w'. Reset_scan T [0..<kNumBlocks T] ?q w = (True, q', w') \<and>
           active_block_n q' = int a \<and> sequence q' = s \<and> dev w' = m"
    by (rule Reset_scan_newest [OF pure readable a newest _ w]) simp_all
  then obtain q' w1 where sc: "Reset_scan T [0..<kNumBlocks T] ?q w = (True, q', w1)"
    and q': "active_block_n q' = int a" "sequence q' = s" and w1: "dev w1 = m" by blast
  have "kNumBlocks T \<le> 2 ^ 15" by (rule kNumBlocks_le)
  then have u: "u32 (int a) = a" using a(1) by (simp add: u32_small)
  obtain w2 r where rd: "nvmem_Read T w1 (BlockLocation T a) (kBlockSize T) = (w2, r)"
    by (cases "nvmem_Read T w1 (BlockLocation T a) (kBlockSize T)")
  have pure1: "reads_pure T (dev w1)" using pure w1 by simp
  have "map_option (Block_of_bytes T) r = Some bA"
    using nvmem_Read_block [OF pure1, of a] rd w1 a(2) by simp
  then obtain bytes where r: "r = Some bytes" and bb: "Block_of_bytes T bytes = bA" by auto
  have "Init T p0 w = (RESULT_SUCCESS, q'\<lparr>block := bA\<rparr>, w2)"
    by (simp add: Init_def Reset_def Let_def sc q' u rd r bb)
  with q' show ?thesis by simp
qed

section \<open>The ring of blocks\<close>

text \<open>
  The region as the class writes it (\<open>ring_inv\<close>): it holds on a region without a valid
  block after \<open>Init\<close>, and every successful \<open>Save\<close> on the flash keeps it. On such a
  region the block that \<open>Save\<close> has just written is the one that the scan of \<open>Init\<close>
  selects.
\<close>

subsection \<open>Blocks of the flash region\<close>

lemma patch_length:
  "l + length xs \<le> length cs \<Longrightarrow>
     length (take l cs @ xs @ drop (l + length xs) cs) = length cs"
  by simp

lemma patch_nth:
  assumes "l + length xs \<le> length cs" and "k < length cs"
  shows "(take l cs @ xs @ drop (l + length xs) cs) ! k =
           (if k < l then cs ! k else if k < l + length xs then xs ! (k - l) else cs ! k)"
proof -
  have "l + length xs + (k - l - length xs) = k" if "\<not> k < l" "\<not> k < l + length xs"
    using that by simp
  then show ?thesis using assms by (auto simp: nth_append)
qed

lemma slice_nth:
  "i < s \<Longrightarrow> l + i < length cs \<Longrightarrow> take s (drop l cs) ! i = cs ! (l + i)"
  by simp

lemma slice_outside:
  assumes "l + length xs \<le> length cs" and "l2 + s2 \<le> l \<or> l + length xs \<le> l2"
  shows "take s2 (drop l2 (take l cs @ xs @ drop (l + length xs) cs)) = take s2 (drop l2 cs)"
proof (rule nth_equalityI)
  show "length (take s2 (drop l2 (take l cs @ xs @ drop (l + length xs) cs))) =
      length (take s2 (drop l2 cs))"
    by (simp only: length_take length_drop patch_length [OF assms(1)])
next
  fix i
  assume "i < length (take s2 (drop l2 (take l cs @ xs @ drop (l + length xs) cs)))"
  then have "i < min (length cs - l2) s2"
    by (simp only: length_take length_drop patch_length [OF assms(1)])
  then have i: "i < s2" "l2 + i < length cs" by arith+
  have "take s2 (drop l2 (take l cs @ xs @ drop (l + length xs) cs)) ! i =
      (take l cs @ xs @ drop (l + length xs) cs) ! (l2 + i)"
    using i by (intro slice_nth) (simp_all only: patch_length [OF assms(1)])
  also have "\<dots> = cs ! (l2 + i)"
    using assms(2) i by (auto simp only: patch_nth [OF assms(1) i(2)] split: if_splits)
  also have "\<dots> = take s2 (drop l2 cs) ! i" using i by simp
  finally show "take s2 (drop l2 (take l cs @ xs @ drop (l + length xs) cs)) ! i =
      take s2 (drop l2 cs) ! i" .
qed

lemma slice_inside:
  assumes "l + length xs \<le> length cs" and "l \<le> l2" and "l2 + s2 \<le> l + length xs"
  shows "take s2 (drop l2 (take l cs @ xs @ drop (l + length xs) cs)) = take s2 (drop (l2 - l) xs)"
proof (rule nth_equalityI)
  have "length (take s2 (drop l2 (take l cs @ xs @ drop (l + length xs) cs))) =
      min (length cs - l2) s2"
    by (simp only: length_take length_drop patch_length [OF assms(1)])
  then show "length (take s2 (drop l2 (take l cs @ xs @ drop (l + length xs) cs))) =
      length (take s2 (drop (l2 - l) xs))"
    using assms by simp
next
  fix i
  assume "i < length (take s2 (drop l2 (take l cs @ xs @ drop (l + length xs) cs)))"
  then have "i < min (length cs - l2) s2"
    by (simp only: length_take length_drop patch_length [OF assms(1)])
  then have i: "i < s2" "l2 + i < length cs" by arith+
  have k: "l2 + i - l = l2 - l + i" "\<not> l2 + i < l" "l2 + i < l + length xs"
    using assms(2,3) i by simp_all
  have "take s2 (drop l2 (take l cs @ xs @ drop (l + length xs) cs)) ! i =
      (take l cs @ xs @ drop (l + length xs) cs) ! (l2 + i)"
    using i by (intro slice_nth) (simp_all only: patch_length [OF assms(1)])
  also have "\<dots> = xs ! (l2 - l + i)"
    using k by (simp only: patch_nth [OF assms(1) i(2)] if_True if_False)
  also have "\<dots> = take s2 (drop (l2 - l) xs) ! i" using i k assms by simp
  finally show "take s2 (drop l2 (take l cs @ xs @ drop (l + length xs) cs)) ! i =
      take s2 (drop (l2 - l) xs) ! i" .
qed

lemma flash_view:
  assumes f: "flash_driver T" and g: "geometry_ok T" and h: "healthy T m"
    and j: "j < kNumBlocks T"
  shows "stored_block T m j =
           Some (Block_of_bytes T (take (kBlockSize T) (drop (BlockLocation T j) (cells m))))"
    and "writable_at T m j \<longleftrightarrow>
           list_all (\<lambda>b. b = kFillByte (nvmem T))
             (take (kBlockSize T) (drop (BlockLocation T j) (cells m)))"
proof -
  have fit: "BlockLocation T j + kBlockSize T \<le> length (cells m)"
    using geom_BlockLocation(5) [OF g j] h by (simp add: healthy_def)
  from flash_stored_block [OF f _ fit] h show "stored_block T m j =
           Some (Block_of_bytes T (take (kBlockSize T) (drop (BlockLocation T j) (cells m))))"
    by (simp add: healthy_def)
  from f fit show "writable_at T m j \<longleftrightarrow>
           list_all (\<lambda>b. b = kFillByte (nvmem T))
             (take (kBlockSize T) (drop (BlockLocation T j) (cells m)))"
    by (simp add: writable_at_def flash_driver_def flash_Writable_def)
qed

lemma writable_blank:
  assumes f: "flash_driver T" and g: "geometry_ok T" and h: "healthy T m"
    and j: "j < kNumBlocks T" and w: "writable_at T m j"
  shows "stored_block T m j = Some (blank_block T)"
proof -
  let ?s = "take (kBlockSize T) (drop (BlockLocation T j) (cells m))"
  have fit: "BlockLocation T j + kBlockSize T \<le> length (cells m)"
    using geom_BlockLocation(5) [OF g j] h by (simp add: healthy_def)
  then have len: "length ?s = kBlockSize T" by simp
  from w flash_view(2) [OF f g h j] have "\<forall>b \<in> set ?s. b = kFillByte (nvmem T)"
    by (simp add: list_all_iff)
  with len have "?s = replicate (kBlockSize T) (kFillByte (nvmem T))"
    by (metis replicate_eqI)
  with flash_view(1) [OF f g h j] show ?thesis by (simp add: blank_block_def)
qed

lemma writable_invalid:
  assumes "flash_driver T" and "geometry_ok T" and "healthy T m" and "blank_invalid T"
    and "j < kNumBlocks T" and "writable_at T m j"
  shows "\<not> valid_at T m j"
  using writable_blank [OF assms(1,2,3,5,6)] assms(4) by (simp add: valid_at_def blank_invalid_def)

lemma flash_Write_others:
  assumes f: "flash_driver T" and g: "geometry_ok T" and h: "healthy T (dev w)"
    and wr: "nvmem_Write T w (BlockLocation T i) src (kBlockSize T) = (w', True)"
    and len: "length src = kBlockSize T"
    and i: "i < kNumBlocks T" and j: "j < kNumBlocks T" and ne: "j \<noteq> i"
  shows "stored_block T (dev w') j = stored_block T (dev w) j"
    and "writable_at T (dev w') j = writable_at T (dev w) j"
proof -
  let ?l = "BlockLocation T i" and ?s = "kBlockSize T" and ?cs = "cells (dev w)"
  from f wr have ok: "?l + ?s \<le> length ?cs"
    and w': "dev w' = (dev w)\<lparr>cells := take ?l ?cs @ take ?s src @ drop (?l + ?s) ?cs\<rparr>"
    by (auto simp: nvmem_Write_def flash_driver_def flash_Write_def split: if_splits)
  have h': "healthy T (dev w')" by (rule flash_Write_written(1) [OF f h wr len])
  from blocks_disjoint [OF g i j] ne
  have dj: "BlockLocation T j + ?s \<le> ?l \<or> ?l + ?s \<le> BlockLocation T j"
    by (auto simp: ranges_disjoint_def)
  have "take ?s (drop (BlockLocation T j) (cells (dev w'))) =
      take ?s (drop (BlockLocation T j) ?cs)"
    unfolding w' using slice_outside [of ?l "take ?s src" ?cs "BlockLocation T j" ?s] ok len dj
    by simp
  then show "stored_block T (dev w') j = stored_block T (dev w) j"
    and "writable_at T (dev w') j = writable_at T (dev w) j"
    by (simp_all add: flash_view [OF f g h j] flash_view [OF f g h' j])
qed

lemma flash_Erase_blocks:
  assumes f: "flash_driver T" and g: "geometry_ok T" and h: "healthy T (dev w)"
    and er: "nvmem_Erase T w l sz = (w', True)" and j: "j < kNumBlocks T"
  shows "l \<le> BlockLocation T j \<and> BlockLocation T j + kBlockSize T \<le> l + sz \<Longrightarrow>
           stored_block T (dev w') j = Some (blank_block T) \<and> writable_at T (dev w') j"
    and "BlockLocation T j + kBlockSize T \<le> l \<or> l + sz \<le> BlockLocation T j \<Longrightarrow>
           stored_block T (dev w') j = stored_block T (dev w) j \<and>
           writable_at T (dev w') j = writable_at T (dev w) j"
proof -
  let ?s = "kBlockSize T" and ?cs = "cells (dev w)" and ?fill = "kFillByte (nvmem T)"
  let ?lj = "BlockLocation T j"
  from f er have ok: "l + sz \<le> length ?cs"
    and w': "dev w' = (dev w)\<lparr>cells := take l ?cs @ replicate sz ?fill @ drop (l + sz) ?cs\<rparr>"
    by (auto simp: nvmem_Erase_def flash_driver_def flash_Erase_def split: if_splits)
  have h': "healthy T (dev w')"
    using flash_Erase_healthy [OF f h, of l sz] er by simp
  {
    assume in_range: "l \<le> ?lj \<and> ?lj + ?s \<le> l + sz"
    have "take ?s (drop ?lj (cells (dev w'))) = take ?s (drop (?lj - l) (replicate sz ?fill))"
      unfolding w' using slice_inside [of l "replicate sz ?fill" ?cs ?lj ?s] ok in_range by simp
    also have "\<dots> = replicate ?s ?fill"
    proof -
      have "?s \<le> sz - (?lj - l)" using in_range by arith
      then show ?thesis by (simp add: min_def)
    qed
    finally have "take ?s (drop ?lj (cells (dev w'))) = replicate ?s ?fill" .
    then show "stored_block T (dev w') j = Some (blank_block T) \<and> writable_at T (dev w') j"
      by (simp add: flash_view [OF f g h' j] blank_block_def list_all_iff)
  }
  {
    assume dj: "?lj + ?s \<le> l \<or> l + sz \<le> ?lj"
    have "take ?s (drop ?lj (cells (dev w'))) = take ?s (drop ?lj ?cs)"
      unfolding w' using slice_outside [of l "replicate sz ?fill" ?cs ?lj ?s] ok dj by simp
    then show "stored_block T (dev w') j = stored_block T (dev w) j \<and>
           writable_at T (dev w') j = writable_at T (dev w) j"
      by (simp add: flash_view [OF f g h j] flash_view [OF f g h' j])
  }
qed

subsection \<open>The block that NextWritableBlock finds\<close>

lemma fwd_succ:
  fixes N x k n' :: nat
  assumes "x < N" and "k < N" and "n' = (if x + 1 < N then x + 1 else 0)"
  shows "k \<noteq> n' \<Longrightarrow> fwd N x k = fwd N n' k + 1"
    and "fwd N x n' = 1"
    and "fwd N n' n' = N"
    and "1 \<le> fwd N x k"
    and "fwd N x k \<le> N"
  using assms by (auto simp: fwd_def split: if_splits)

lemma nvmem_Writable_at:
  "snd (nvmem_Writable T w (BlockLocation T j) (kBlockSize T)) = writable_at T (dev w) j"
  by (simp add: nvmem_Writable_def writable_at_def split: prod.split)

lemma NextWritableBlock_loop_first:
  assumes "NextWritableBlock_loop T cur nxt w = Some y"
  shows "flash_driver T \<longrightarrow> 0 \<le> nxt \<longrightarrow> nxt < int (kNumBlocks T) \<longrightarrow>
         0 \<le> cur \<longrightarrow> cur < int (kNumBlocks T) \<longrightarrow>
         (\<exists>n < kNumBlocks T. fst y = int n \<and>
            (writable_at T (dev w) n \<or> n = nat cur) \<and>
            fwd (kNumBlocks T) (nat nxt) n \<le> fwd (kNumBlocks T) (nat nxt) (nat cur) \<and>
            (\<forall>k < kNumBlocks T.
               fwd (kNumBlocks T) (nat nxt) k < fwd (kNumBlocks T) (nat nxt) n \<longrightarrow>
               \<not> writable_at T (dev w) k))"
proof (rule NextWritableBlock_loop.raw_induct
    [where P = "\<lambda>T cur nxt w y. flash_driver T \<longrightarrow> 0 \<le> nxt \<longrightarrow> nxt < int (kNumBlocks T) \<longrightarrow>
         0 \<le> cur \<longrightarrow> cur < int (kNumBlocks T) \<longrightarrow>
         (\<exists>n < kNumBlocks T. fst y = int n \<and>
            (writable_at T (dev w) n \<or> n = nat cur) \<and>
            fwd (kNumBlocks T) (nat nxt) n \<le> fwd (kNumBlocks T) (nat nxt) (nat cur) \<and>
            (\<forall>k < kNumBlocks T.
               fwd (kNumBlocks T) (nat nxt) k < fwd (kNumBlocks T) (nat nxt) n \<longrightarrow>
               \<not> writable_at T (dev w) k))", OF _ assms])
  fix loop :: "flash tparams \<Rightarrow> int \<Rightarrow> int \<Rightarrow> flash world \<Rightarrow> (int \<times> flash world) option"
  fix T c nx w y
  assume IH: "\<And>T cur nxt w y. loop T cur nxt w = Some y \<Longrightarrow>
      flash_driver T \<longrightarrow> 0 \<le> nxt \<longrightarrow> nxt < int (kNumBlocks T) \<longrightarrow>
         0 \<le> cur \<longrightarrow> cur < int (kNumBlocks T) \<longrightarrow>
         (\<exists>n < kNumBlocks T. fst y = int n \<and>
            (writable_at T (dev w) n \<or> n = nat cur) \<and>
            fwd (kNumBlocks T) (nat nxt) n \<le> fwd (kNumBlocks T) (nat nxt) (nat cur) \<and>
            (\<forall>k < kNumBlocks T.
               fwd (kNumBlocks T) (nat nxt) k < fwd (kNumBlocks T) (nat nxt) n \<longrightarrow>
               \<not> writable_at T (dev w) k))"
  assume eq: "(let next_block_n' = int (u32 (nx + 1) mod kNumBlocks T)
      in case nvmem_Writable T w (BlockLocation T (u32 next_block_n')) (kBlockSize T) of
         (w', writable) \<Rightarrow>
           if writable then Some (next_block_n', w')
           else if next_block_n' \<noteq> c then loop T c next_block_n' w'
                else Some (next_block_n', w')) = Some y"
  let ?N = "kNumBlocks T"
  show "flash_driver T \<longrightarrow> 0 \<le> nx \<longrightarrow> nx < int ?N \<longrightarrow> 0 \<le> c \<longrightarrow> c < int ?N \<longrightarrow>
         (\<exists>n < ?N. fst y = int n \<and>
            (writable_at T (dev w) n \<or> n = nat c) \<and>
            fwd ?N (nat nx) n \<le> fwd ?N (nat nx) (nat c) \<and>
            (\<forall>k < ?N. fwd ?N (nat nx) k < fwd ?N (nat nx) n \<longrightarrow> \<not> writable_at T (dev w) k))"
  proof (intro impI)
    assume f: "flash_driver T" and x: "0 \<le> nx" "nx < int ?N" and c: "0 \<le> c" "c < int ?N"
    define X where "X = nat nx"
    define C where "C = nat c"
    define n' where "n' = (if X + 1 < ?N then X + 1 else 0)"
    have XC: "X < ?N" "C < ?N" "nx = int X" "c = int C" using x c by (simp_all add: X_def C_def)
    have N15: "?N \<le> 2 ^ 15" by (rule kNumBlocks_le)
    have "u32 (nx + 1) = X + 1" using XC N15 by (simp add: u32_small)
    moreover have "(X + 1) mod ?N = n'"
    proof (cases "X + 1 < ?N")
      case True
      then show ?thesis by (simp add: n'_def)
    next
      case False
      with XC(1) have "X + 1 = ?N" by simp
      with False show ?thesis by (simp add: n'_def)
    qed
    ultimately have nb: "int (u32 (nx + 1) mod ?N) = int n'" by simp
    have n'N: "n' < ?N" using XC by (simp add: n'_def)
    have u: "u32 (int n') = n'" using n'N N15 by (simp add: u32_small)
    have eq': "(case nvmem_Writable T w (BlockLocation T n') (kBlockSize T) of
         (w', writable) \<Rightarrow>
           if writable then Some (int n', w')
           else if int n' \<noteq> c then loop T c (int n') w'
                else Some (int n', w')) = Some y"
      using eq by (simp only: Let_def nb u)
    obtain w1 wr where pr: "nvmem_Writable T w (BlockLocation T n') (kBlockSize T) = (w1, wr)"
      by (cases "nvmem_Writable T w (BlockLocation T n') (kBlockSize T)")
    have wr: "wr = writable_at T (dev w) n'"
      using nvmem_Writable_at [of T w n'] pr by simp
    have w1: "dev w1 = dev w"
      using flash_Writable_dev [OF f, of w "BlockLocation T n'" "kBlockSize T"] pr by simp
    note st1 = fwd_succ(2) [OF XC(1) n'N n'_def] and stN = fwd_succ(3) [OF XC(1) n'N n'_def]
      and stS = fwd_succ(1) [OF XC(1) _ n'_def] and stge = fwd_succ(4) [OF XC(1) _ n'_def]
    have goal: "\<exists>n < ?N. fst y = int n \<and> (writable_at T (dev w) n \<or> n = C) \<and>
        fwd ?N X n \<le> fwd ?N X C \<and>
        (\<forall>k < ?N. fwd ?N X k < fwd ?N X n \<longrightarrow> \<not> writable_at T (dev w) k)"
    proof (cases "wr \<or> n' = C")
      case True
      with eq' pr XC(4) have "y = (int n', w1)"
        by (auto split: if_splits)
      moreover have "\<forall>k < ?N. \<not> fwd ?N X k < fwd ?N X n'"
      proof (intro allI impI)
        fix k assume "k < ?N"
        from stge [OF this] st1 show "\<not> fwd ?N X k < fwd ?N X n'" by simp
      qed
      ultimately show ?thesis
        using True wr n'N st1 stge [OF XC(2)] by auto
    next
      case False
      with eq' pr XC(4) have "loop T c (int n') w1 = Some y"
        by auto
      from IH [OF this] f n'N c have "\<exists>n < ?N. fst y = int n \<and>
            (writable_at T (dev w1) n \<or> n = nat c) \<and>
            fwd ?N (nat (int n')) n \<le> fwd ?N (nat (int n')) (nat c) \<and>
            (\<forall>k < ?N. fwd ?N (nat (int n')) k < fwd ?N (nat (int n')) n \<longrightarrow>
               \<not> writable_at T (dev w1) k)" by simp
      then obtain n where n: "n < ?N" "fst y = int n"
        "writable_at T (dev w) n \<or> n = C" "fwd ?N n' n \<le> fwd ?N n' C"
        "\<forall>k < ?N. fwd ?N n' k < fwd ?N n' n \<longrightarrow> \<not> writable_at T (dev w) k"
        unfolding w1 nat_int C_def [symmetric] by blast
      from False have Cn: "C \<noteq> n'" by simp
      have "fwd ?N n' C < ?N" using XC(2) n'N Cn by (auto simp: fwd_def)
      with n(4) stN have nn: "n \<noteq> n'" by auto
      have a: "fwd ?N X n \<le> fwd ?N X C" using n(4) stS [OF n(1) nn] stS [OF XC(2) Cn] by simp
      have b: "\<not> writable_at T (dev w) k" if k: "k < ?N" "fwd ?N X k < fwd ?N X n" for k
      proof (cases "k = n'")
        case True
        with False wr show ?thesis by simp
      next
        case kn: False
        from k(2) stS [OF k(1) kn] stS [OF n(1) nn] have "fwd ?N n' k < fwd ?N n' n" by simp
        with n(5) k(1) show ?thesis by simp
      qed
      from n(1,2,3) a b show ?thesis by blast
    qed
    then show "\<exists>n < ?N. fst y = int n \<and>
            (writable_at T (dev w) n \<or> n = nat c) \<and>
            fwd ?N (nat nx) n \<le> fwd ?N (nat nx) (nat c) \<and>
            (\<forall>k < ?N. fwd ?N (nat nx) k < fwd ?N (nat nx) n \<longrightarrow> \<not> writable_at T (dev w) k)"
      unfolding X_def C_def .
  qed
qed

lemma NextWritableBlock_first:
  assumes f: "flash_driver T" and N: "0 < kNumBlocks T"
    and nw: "NextWritableBlock T a w = Some (n, w')"
    and a: "a = - 1 \<or> (0 \<le> a \<and> a < int (kNumBlocks T))"
    and c: "c = (if a = - 1 then kNumBlocks T - 1 else nat a)"
  shows "dev w' = dev w"
    and "n \<noteq> - 1 \<Longrightarrow> 0 \<le> n \<and> n < int (kNumBlocks T) \<and> nat n \<noteq> c \<and>
           writable_at T (dev w) (nat n) \<and>
           (\<forall>k < kNumBlocks T. writable_at T (dev w) k \<longrightarrow>
              k = nat n \<or> fwd (kNumBlocks T) c (nat n) < fwd (kNumBlocks T) c k)"
    and "n = - 1 \<Longrightarrow> \<forall>k < kNumBlocks T. writable_at T (dev w) k \<longrightarrow> k = c"
proof -
  let ?N = "kNumBlocks T"
  show "dev w' = dev w" by (rule flash_NextWritableBlock_dev [OF f nw])
  have cr: "c < ?N" "(if a = - 1 then int ?N - 1 else a) = int c"
    using a N c by auto
  from nw cr(2) obtain y where y: "NextWritableBlock_loop T (int c) (int c) w = Some y"
    and n: "n = (if fst y = int c then - 1 else fst y)"
    by (auto simp: NextWritableBlock_def Let_def split: option.splits prod.splits)
  from NextWritableBlock_loop_first [OF y] f cr(1) have "\<exists>m < ?N. fst y = int m \<and>
            (writable_at T (dev w) m \<or> m = nat (int c)) \<and>
            fwd ?N (nat (int c)) m \<le> fwd ?N (nat (int c)) (nat (int c)) \<and>
            (\<forall>k < ?N. fwd ?N (nat (int c)) k < fwd ?N (nat (int c)) m \<longrightarrow>
               \<not> writable_at T (dev w) k)" by simp
  then obtain m where m: "m < ?N" "fst y = int m" "writable_at T (dev w) m \<or> m = c"
    "\<forall>k < ?N. fwd ?N c k < fwd ?N c m \<longrightarrow> \<not> writable_at T (dev w) k"
    unfolding nat_int by blast
  {
    assume "n \<noteq> - 1"
    with n m have nm: "n = int m" "m \<noteq> c" by (auto split: if_splits)
    have "k = m \<or> fwd ?N c m < fwd ?N c k" if "k < ?N" "writable_at T (dev w) k" for k
    proof -
      from m(4) that have "\<not> fwd ?N c k < fwd ?N c m" by blast
      then show ?thesis using nm(2) that(1) m(1) cr(1)
        by (auto simp: fwd_def split: if_splits)
    qed
    with nm m show "0 \<le> n \<and> n < int ?N \<and> nat n \<noteq> c \<and> writable_at T (dev w) (nat n) \<and>
           (\<forall>k < ?N. writable_at T (dev w) k \<longrightarrow>
              k = nat n \<or> fwd ?N c (nat n) < fwd ?N c k)"
      by auto
  }
  {
    assume "n = - 1"
    with n m have mc: "m = c" by (auto split: if_splits)
    show "\<forall>k < ?N. writable_at T (dev w) k \<longrightarrow> k = c"
    proof (intro allI impI)
      fix k assume k: "k < ?N" "writable_at T (dev w) k"
      from m(4) k have "\<not> fwd ?N c k < fwd ?N c m" by blast
      then show "k = c" using mc k(1) cr(1) by (auto simp: fwd_def split: if_splits)
    qed
  }
qed


subsection \<open>The steps of the invariant\<close>

lemma age_succ:
  fixes s t :: u16
  assumes "unat (s - t) < 65535"
  shows "unat (s + 1 - t) = unat (s - t) + 1"
proof -
  have e: "s + 1 - t = (s - t) + 1" by simp
  have "unat ((s - t) + 1) = unat (s - t) + 1"
    using assms by (simp add: unat_word_ariths)
  then show ?thesis by (simp only: e)
qed

lemma fwd_bounds:
  assumes "a < N" and "j < N"
  shows "1 \<le> fwd N a j" and "fwd N a j \<le> N" and "j \<noteq> a \<Longrightarrow> fwd N a j < N"
    and "fwd N a a = N"
  using assms by (auto simp: fwd_def)

lemma fwd_split:
  assumes "a < N" and "n < N" and "j < N" and "fwd N a n < fwd N a j"
  shows "fwd N n j + fwd N a n = fwd N a j"
  using assms by (auto simp: fwd_def split: if_splits)

lemma fwd_back:
  assumes "a < N" and "n < N" and "n \<noteq> a"
  shows "fwd N n a + fwd N a n = N"
  using assms by (auto simp: fwd_def split: if_splits)

lemma fwd_before:
  assumes "a < N" and "n < N" and "k < N" and "fwd N a n < fwd N a k" and "k < n"
    and "k \<noteq> a"
  shows "k < a \<and> a < n"
  using assms by (auto simp: fwd_def split: if_splits)

lemma page_between:
  "k \<le> a \<Longrightarrow> a \<le> n \<Longrightarrow> page_of T k = page_of T n \<Longrightarrow> page_of T a = page_of T k"
  unfolding page_of_def
  by (metis div_le_mono le_antisym)

lemma ring_invI:
  assumes "0 \<le> active_block_n p" and "active_block_n p < int (kNumBlocks T)"
    and "a = nat (active_block_n p)"
    and "\<And>j. j < kNumBlocks T \<Longrightarrow> valid_at T m j \<Longrightarrow> j \<noteq> a \<Longrightarrow>
           0 < age T p m j \<and> age T p m j + fwd (kNumBlocks T) a j \<le> kNumBlocks T \<and>
           (page_of T j = page_of T a \<longrightarrow> j < a)"
    and "\<And>j k. j < kNumBlocks T \<Longrightarrow> valid_at T m j \<Longrightarrow> j \<noteq> a \<Longrightarrow>
           k < kNumBlocks T \<Longrightarrow> writable_at T m k \<Longrightarrow>
           fwd (kNumBlocks T) a k < fwd (kNumBlocks T) a j \<and>
           (page_of T k = page_of T j \<longrightarrow> j < k)"
    and "\<And>k. k < kNumBlocks T \<Longrightarrow> writable_at T m k \<Longrightarrow> page_of T k = page_of T a \<Longrightarrow> a < k"
  shows "ring_inv T p m"
proof -
  from assms(1) have "active_block_n p \<noteq> - 1" by auto
  then show ?thesis
    unfolding ring_inv_def assms(3) [symmetric]
    using assms(1,2,4,5,6) by (simp only: if_False) blast
qed

lemma ring_invD:
  assumes "ring_inv T p m" and "active_block_n p \<noteq> - 1" and "a = nat (active_block_n p)"
  shows "0 \<le> active_block_n p" and "active_block_n p < int (kNumBlocks T)"
    and "\<And>j. j < kNumBlocks T \<Longrightarrow> valid_at T m j \<Longrightarrow> j \<noteq> a \<Longrightarrow>
           0 < age T p m j \<and> age T p m j + fwd (kNumBlocks T) a j \<le> kNumBlocks T \<and>
           (page_of T j = page_of T a \<longrightarrow> j < a)"
    and "\<And>j k. j < kNumBlocks T \<Longrightarrow> valid_at T m j \<Longrightarrow> j \<noteq> a \<Longrightarrow>
           k < kNumBlocks T \<Longrightarrow> writable_at T m k \<Longrightarrow>
           fwd (kNumBlocks T) a k < fwd (kNumBlocks T) a j \<and>
           (page_of T k = page_of T j \<longrightarrow> j < k)"
    and "\<And>k. k < kNumBlocks T \<Longrightarrow> writable_at T m k \<Longrightarrow> page_of T k = page_of T a \<Longrightarrow> a < k"
proof -
  from assms(1,2) have r: "0 \<le> active_block_n p \<and> active_block_n p < int (kNumBlocks T) \<and>
        (\<forall>j < kNumBlocks T. valid_at T m j \<and> j \<noteq> a \<longrightarrow>
           0 < age T p m j \<and>
           age T p m j + fwd (kNumBlocks T) a j \<le> kNumBlocks T \<and>
           (page_of T j = page_of T a \<longrightarrow> j < a) \<and>
           (\<forall>k < kNumBlocks T. writable_at T m k \<longrightarrow>
              fwd (kNumBlocks T) a k < fwd (kNumBlocks T) a j \<and>
              (page_of T k = page_of T j \<longrightarrow> j < k))) \<and>
        (\<forall>k < kNumBlocks T. writable_at T m k \<and> page_of T k = page_of T a \<longrightarrow> a < k)"
    unfolding ring_inv_def assms(3) [symmetric] by (simp only: if_False) blast
  from r show "0 \<le> active_block_n p" and "active_block_n p < int (kNumBlocks T)" by blast+
  from r show "\<And>j. j < kNumBlocks T \<Longrightarrow> valid_at T m j \<Longrightarrow> j \<noteq> a \<Longrightarrow>
           0 < age T p m j \<and> age T p m j + fwd (kNumBlocks T) a j \<le> kNumBlocks T \<and>
           (page_of T j = page_of T a \<longrightarrow> j < a)" by blast
  from r show "\<And>j k. j < kNumBlocks T \<Longrightarrow> valid_at T m j \<Longrightarrow> j \<noteq> a \<Longrightarrow>
           k < kNumBlocks T \<Longrightarrow> writable_at T m k \<Longrightarrow>
           fwd (kNumBlocks T) a k < fwd (kNumBlocks T) a j \<and>
           (page_of T k = page_of T j \<longrightarrow> j < k)" by blast
  from r show "\<And>k. k < kNumBlocks T \<Longrightarrow> writable_at T m k \<Longrightarrow> page_of T k = page_of T a \<Longrightarrow> a < k"
    by blast
qed

text \<open>The step of the invariant when Save writes the next writable block.\<close>

lemma ring_step_free:
  assumes ri: "ring_inv T p m"
    and a: "active_block_n p \<noteq> - 1 \<longrightarrow>
              valid_at T m (nat (active_block_n p)) \<and> \<not> writable_at T m (nat (active_block_n p)) \<and>
              sequence_at T m (nat (active_block_n p)) = sequence p"
    and c: "c = (if active_block_n p = - 1 then kNumBlocks T - 1 else nat (active_block_n p))"
    and n: "n < kNumBlocks T" "n \<noteq> c" "writable_at T m n"
    and first: "\<forall>k < kNumBlocks T. writable_at T m k \<longrightarrow>
                  k = n \<or> fwd (kNumBlocks T) c n < fwd (kNumBlocks T) c k"
    and p': "active_block_n p' = int n" "sequence p' = sequence p + 1"
    and vn: "valid_at T m' n" "\<not> writable_at T m' n"
    and others: "\<forall>j < kNumBlocks T. j \<noteq> n \<longrightarrow>
                  valid_at T m' j = valid_at T m j \<and> sequence_at T m' j = sequence_at T m j \<and>
                  writable_at T m' j = writable_at T m j"
    and inv: "\<forall>j < kNumBlocks T. writable_at T m j \<longrightarrow> \<not> valid_at T m j"
  shows "ring_inv T p' m'"
proof (cases "active_block_n p = - 1")
  case True
  let ?N = "kNumBlocks T"
  from ri True have nov: "\<And>j. j < ?N \<Longrightarrow> \<not> valid_at T m j" by (simp add: ring_inv_def)
  from True c have cv: "c = ?N - 1" by simp
  have v': "\<not> valid_at T m' j" if "j < ?N" "j \<noteq> n" for j
    using others that nov by simp
  show ?thesis
  proof (rule ring_invI [where a = n])
    show "0 \<le> active_block_n p'" "active_block_n p' < int ?N" "n = nat (active_block_n p')"
      using p' n by simp_all
  next
    fix j assume "j < ?N" "valid_at T m' j" "j \<noteq> n"
    with v' show "0 < age T p' m' j \<and> age T p' m' j + fwd ?N n j \<le> ?N \<and>
           (page_of T j = page_of T n \<longrightarrow> j < n)" by blast
  next
    fix j k assume "j < ?N" "valid_at T m' j" "j \<noteq> n"
    with v' show "fwd ?N n k < fwd ?N n j \<and> (page_of T k = page_of T j \<longrightarrow> j < k)" by blast
  next
    fix k assume k: "k < ?N" "writable_at T m' k" "page_of T k = page_of T n"
    with vn have kn: "k \<noteq> n" by auto
    with others k have "writable_at T m k" by simp
    with first k(1) kn have "fwd ?N c n < fwd ?N c k" by blast
    then show "n < k" using n k(1) cv by (auto simp: fwd_def split: if_splits)
  qed
next
  case False
  let ?N = "kNumBlocks T"
  define A where "A = nat (active_block_n p)"
  note D = ring_invD [OF ri False A_def]
  from False c have cA: "c = A" by (simp add: A_def)
  have AN: "A < ?N" using D(1,2) by (simp add: A_def)
  from a False have av: "valid_at T m A" "\<not> writable_at T m A" "sequence_at T m A = sequence p"
    by (simp_all add: A_def)
  have nA: "n \<noteq> A" using n cA by simp
  have N15: "?N \<le> 2 ^ 15" by (rule kNumBlocks_le)
  have fn: "fwd ?N A n < fwd ?N A k" if "k < ?N" "writable_at T m k" "k \<noteq> n" for k
    using first that cA by blast
  have ageA: "age T p' m' A = 1"
    using others AN nA av(3) p'(2) by (simp add: age_def)
  have age': "age T p' m' j = age T p m j + 1" if j: "j < ?N" "valid_at T m j" "j \<noteq> A" "j \<noteq> n" for j
  proof -
    from D(3) [OF j(1,2,3)] fwd_bounds(1) [OF AN j(1)] have "age T p m j < ?N" by simp
    with N15 have "unat (sequence p - sequence_at T m j) < 65535" by (simp add: age_def)
    from age_succ [OF this] others j show ?thesis by (simp add: age_def p'(2))
  qed
  show ?thesis
  proof (rule ring_invI [where a = n])
    show "0 \<le> active_block_n p'" "active_block_n p' < int ?N" "n = nat (active_block_n p')"
      using p' n by simp_all
  next
    fix j assume j: "j < ?N" "valid_at T m' j" "j \<noteq> n"
    with others have vj: "valid_at T m j" by simp
    show "0 < age T p' m' j \<and> age T p' m' j + fwd ?N n j \<le> ?N \<and>
           (page_of T j = page_of T n \<longrightarrow> j < n)"
    proof (cases "j = A")
      case True
      have "fwd ?N n A < ?N" using fwd_bounds(3) [OF n(1) AN] nA by simp
      moreover have "page_of T A = page_of T n \<longrightarrow> A < n"
        using D(5) [OF n(1,3)] by simp
      ultimately show ?thesis using True ageA by simp
    next
      case jA: False
      from D(4) [OF j(1) vj jA n(1,3)]
      have lt: "fwd ?N A n < fwd ?N A j" and pg: "page_of T n = page_of T j \<longrightarrow> j < n" by simp_all
      from fwd_split [OF AN n(1) j(1) lt] fwd_bounds(1) [OF AN n(1)]
      have "fwd ?N n j + 1 \<le> fwd ?N A j" by simp
      with D(3) [OF j(1) vj jA] age' [OF j(1) vj jA j(3)] pg show ?thesis by auto
    qed
  next
    fix j k assume j: "j < ?N" "valid_at T m' j" "j \<noteq> n" and k: "k < ?N" "writable_at T m' k"
    with others have vj: "valid_at T m j" by simp
    from k vn have kn: "k \<noteq> n" by auto
    with others k have wk: "writable_at T m k" by simp
    have kA: "k \<noteq> A" using wk av(2) by auto
    note fk = fn [OF k(1) wk kn]
    show "fwd ?N n k < fwd ?N n j \<and> (page_of T k = page_of T j \<longrightarrow> j < k)"
    proof (cases "j = A")
      case True
      from fwd_split [OF AN n(1) k(1) fk] fwd_back [OF AN n(1) nA]
        fwd_bounds(3) [OF AN k(1) kA]
      have "fwd ?N n k < fwd ?N n A" by simp
      moreover have "page_of T k = page_of T A \<longrightarrow> A < k"
        using D(5) [OF k(1) wk] by simp
      ultimately show ?thesis using True by simp
    next
      case jA: False
      from D(4) [OF j(1) vj jA k(1) wk]
      have lt: "fwd ?N A k < fwd ?N A j" and pg: "page_of T k = page_of T j \<longrightarrow> j < k" by simp_all
      from fk lt have "fwd ?N A n < fwd ?N A j" by simp
      from fwd_split [OF AN n(1) j(1) this] fwd_split [OF AN n(1) k(1) fk] lt
      have "fwd ?N n k < fwd ?N n j" by simp
      with pg show ?thesis by simp
    qed
  next
    fix k assume k: "k < ?N" "writable_at T m' k" "page_of T k = page_of T n"
    from k vn have kn: "k \<noteq> n" by auto
    with others k have wk: "writable_at T m k" by simp
    note fk = fn [OF k(1) wk kn]
    have kA: "k \<noteq> A" using wk av(2) by auto
    show "n < k"
    proof (rule ccontr)
      assume "\<not> n < k"
      with kn have "k < n" by simp
      from fwd_before [OF AN n(1) k(1) fk this kA] have o: "k < A" "A < n" by simp_all
      with page_between [of k A n T] k(3) have "page_of T A = page_of T k" by simp
      with D(5) [OF k(1) wk] o show False by simp
    qed
  qed
qed


lemma page_range:
  assumes "0 < kBlocksPerPage T"
  shows "page_of T j * kBlocksPerPage T \<le> j" and "j < (page_of T j + 1) * kBlocksPerPage T"
    and "page_of T (q * kBlocksPerPage T) = q"
    and "q < page_of T j \<longleftrightarrow> (q + 1) * kBlocksPerPage T \<le> j"
proof -
  let ?B = "kBlocksPerPage T"
  show "page_of T j * ?B \<le> j" by (simp add: page_of_def)
  show "j < (page_of T j + 1) * ?B"
    using assms dividend_less_div_times [of ?B j] by (simp add: page_of_def algebra_simps)
  show "page_of T (q * ?B) = q" using assms by (simp add: page_of_def)
  show "q < page_of T j \<longleftrightarrow> (q + 1) * ?B \<le> j"
    using assms less_eq_div_iff_mult_less_eq [of ?B "q + 1" j]
    by (simp add: page_of_def Suc_le_eq)
qed

lemma next_page_fwd:
  assumes B: "0 < kBlocksPerPage T" and A: "A < N" and j: "j < N"
    and NP: "N \<le> P * kBlocksPerPage T"
    and np: "np = (page_of T A + 1) mod P" and n0: "n0 = np * kBlocksPerPage T" "n0 < N"
    and jp: "page_of T j \<noteq> np" and jA: "j \<noteq> A"
    and after: "page_of T j = page_of T A \<longrightarrow> j < A"
  shows "fwd N n0 j < fwd N A j"
proof -
  let ?B = "kBlocksPerPage T"
  define pa where "pa = page_of T A"
  note rA = page_range(1,2) [OF B, of A, folded pa_def]
  note rj = page_range(1,2) [OF B, of j]
  have paP: "pa < P"
  proof (rule ccontr)
    assume "\<not> pa < P"
    then have "P * ?B \<le> pa * ?B" by simp
    with rA(1) A NP show False by simp
  qed
  have jP: "page_of T j < P"
  proof (rule ccontr)
    assume "\<not> page_of T j < P"
    then have "P * ?B \<le> page_of T j * ?B" by simp
    with rj(1) j NP show False by simp
  qed
  show ?thesis
  proof (cases "pa + 1 < P")
    case True
    then have npv: "np = pa + 1" by (simp add: np pa_def)
    then have n0v: "n0 = (pa + 1) * ?B" by (simp add: n0)
    have An0: "A < n0" using rA(2) n0v by simp
    show ?thesis
    proof (cases "j < A")
      case True
      then show ?thesis using An0 n0(2) A by (auto simp: fwd_def)
    next
      case False
      with jA have Aj: "A < j" by simp
      then have "pa \<le> page_of T j" unfolding pa_def page_of_def by (simp add: div_le_mono)
      with after Aj jp npv have "pa + 1 < page_of T j" by (auto simp: pa_def)
      then have "(pa + 2) * ?B \<le> j" using page_range(4) [OF B, of "pa + 1" j] by simp
      then have "n0 < j" using n0v B by simp
      then show ?thesis using An0 Aj by (auto simp: fwd_def)
    qed
  next
    case False
    with paP have paL: "pa + 1 = P" by simp
    then have "np = 0" by (simp add: np pa_def)
    then have n0v: "n0 = 0" by (simp add: n0)
    have j0: "0 < j"
    proof (rule ccontr)
      assume "\<not> 0 < j"
      then have "page_of T j = 0" by (simp add: page_of_def)
      with jp \<open>np = 0\<close> show False by simp
    qed
    have "j < A"
    proof (rule ccontr)
      assume "\<not> j < A"
      with jA have Aj: "A < j" by simp
      then have "pa \<le> page_of T j" unfolding pa_def page_of_def by (simp add: div_le_mono)
      with jP paL have "page_of T j = pa" by simp
      with after Aj show False by (simp add: pa_def)
    qed
    then show ?thesis using n0v j0 A by (auto simp: fwd_def)
  qed
qed

text \<open>The step of the invariant when Save erases the next page and writes its first block.\<close>

lemma ring_step_page:
  assumes ri: "ring_inv T p m" and act: "active_block_n p \<noteq> - 1"
    and A: "A = nat (active_block_n p)"
    and av: "sequence_at T m A = sequence p"
    and nowr: "\<forall>k < kNumBlocks T. \<not> writable_at T m k"
    and B: "0 < kBlocksPerPage T" and NP: "kNumBlocks T \<le> kNumPages T * kBlocksPerPage T"
    and np: "np = (page_of T A + 1) mod kNumPages T"
    and n0: "n0 = np * kBlocksPerPage T" "n0 < kNumBlocks T"
    and p': "active_block_n p' = int n0" "sequence p' = sequence p + 1"
    and vn: "valid_at T m' n0" "\<not> writable_at T m' n0"
    and erased: "\<forall>j < kNumBlocks T. j \<noteq> n0 \<and> page_of T j = np \<longrightarrow> \<not> valid_at T m' j"
    and others: "\<forall>j < kNumBlocks T. page_of T j \<noteq> np \<longrightarrow>
                  valid_at T m' j = valid_at T m j \<and> sequence_at T m' j = sequence_at T m j \<and>
                  writable_at T m' j = writable_at T m j"
  shows "ring_inv T p' m'"
proof -
  let ?N = "kNumBlocks T" and ?B = "kBlocksPerPage T"
  note D = ring_invD [OF ri act A]
  have AN: "A < ?N" using D(1,2) by (simp add: A)
  have N15: "?N \<le> 2 ^ 15" by (rule kNumBlocks_le)
  have pn0: "page_of T n0 = np" using page_range(3) [OF B] n0(1) by simp
  have keep: "page_of T j \<noteq> np \<and> valid_at T m j \<and> sequence_at T m' j = sequence_at T m j"
    if "j < ?N" "valid_at T m' j" "j \<noteq> n0" for j
    using that erased others by metis
  have wr: "page_of T k = np \<and> n0 < k" if k: "k < ?N" "writable_at T m' k" for k
  proof -
    from k others nowr have pk: "page_of T k = np" by metis
    from k vn have "k \<noteq> n0" by auto
    moreover have "n0 \<le> k" using page_range(1) [OF B, of k] pk n0(1) by simp
    ultimately show ?thesis using pk by simp
  qed
  show ?thesis
  proof (rule ring_invI [where a = n0])
    show "0 \<le> active_block_n p'" "active_block_n p' < int ?N" "n0 = nat (active_block_n p')"
      using p'(1) n0(2) by simp_all
  next
    fix j assume j: "j < ?N" "valid_at T m' j" "j \<noteq> n0"
    note kj = keep [OF j]
    have pg: "page_of T j = page_of T n0 \<longrightarrow> j < n0" using kj pn0 by simp
    show "0 < age T p' m' j \<and> age T p' m' j + fwd ?N n0 j \<le> ?N \<and>
           (page_of T j = page_of T n0 \<longrightarrow> j < n0)"
    proof (cases "j = A")
      case True
      have "age T p' m' A = 1" using kj True av p'(2) by (simp add: age_def)
      moreover have "fwd ?N n0 A < ?N" using fwd_bounds(3) [OF n0(2) AN] j(3) True by simp
      ultimately show ?thesis using True pg by simp
    next
      case jA: False
      note Dj = D(3) [OF j(1) _ jA]
      from kj Dj fwd_bounds(1) [OF AN j(1)] have "age T p m j < ?N" by simp
      with N15 have "unat (sequence p - sequence_at T m j) < 65535" by (simp add: age_def)
      from age_succ [OF this] kj have age': "age T p' m' j = age T p m j + 1"
        by (simp add: age_def p'(2))
      have "fwd ?N n0 j < fwd ?N A j"
        using next_page_fwd [OF B AN j(1) NP np n0] kj jA Dj by simp
      with kj Dj age' pg show ?thesis by simp
    qed
  next
    fix j k assume j: "j < ?N" "valid_at T m' j" "j \<noteq> n0" and k: "k < ?N" "writable_at T m' k"
    note kj = keep [OF j] and wk = wr [OF k]
    have kr: "k < (np + 1) * ?B" using page_range(2) [OF B, of k] wk by simp
    have "fwd ?N n0 k < fwd ?N n0 j"
    proof (cases "n0 < j")
      case True
      then have "np \<le> page_of T j" using pn0 unfolding page_of_def by (metis div_le_mono less_imp_le)
      with kj have "np < page_of T j" by simp
      then have "(np + 1) * ?B \<le> j" using page_range(4) [OF B, of np j] by simp
      with kr have "k < j" by simp
      with wk True show ?thesis by (auto simp: fwd_def)
    next
      case False
      with j(3) have "j < n0" by simp
      with wk k(1) show ?thesis by (auto simp: fwd_def)
    qed
    with kj wk show "fwd ?N n0 k < fwd ?N n0 j \<and> (page_of T k = page_of T j \<longrightarrow> j < k)"
      by simp
  next
    fix k assume "k < ?N" "writable_at T m' k" "page_of T k = page_of T n0"
    with wr show "n0 < k" by simp
  qed
qed

text \<open>The step of the invariant when Save erases the whole region and writes block 0.\<close>

lemma ring_step_all:
  assumes p': "active_block_n p' = 0" and N: "0 < kNumBlocks T"
    and vn: "\<not> writable_at T m' 0"
    and erased: "\<forall>j < kNumBlocks T. j \<noteq> 0 \<longrightarrow> \<not> valid_at T m' j"
  shows "ring_inv T p' m'"
proof (rule ring_invI [where a = 0])
  show "0 \<le> active_block_n p'" "active_block_n p' < int (kNumBlocks T)"
    "0 = nat (active_block_n p')"
    using p' N by simp_all
next
  fix j assume "j < kNumBlocks T" "valid_at T m' j" "j \<noteq> 0"
  with erased show "0 < age T p' m' j \<and> age T p' m' j + fwd (kNumBlocks T) 0 j \<le> kNumBlocks T \<and>
           (page_of T j = page_of T 0 \<longrightarrow> j < 0)" by blast
next
  fix j k assume "j < kNumBlocks T" "valid_at T m' j" "j \<noteq> 0"
  with erased show "fwd (kNumBlocks T) 0 k < fwd (kNumBlocks T) 0 j \<and>
      (page_of T k = page_of T j \<longrightarrow> j < k)" by blast
next
  fix k assume "k < kNumBlocks T" "writable_at T m' k"
  with vn show "0 < k" by (cases "k = 0") simp_all
qed


subsection \<open>A successful Save keeps the invariant\<close>

lemma stored_same:
  assumes "stored_block T m' j = stored_block T m j"
  shows "valid_at T m' j = valid_at T m j" and "sequence_at T m' j = sequence_at T m j"
  using assms by (simp_all add: valid_at_def sequence_at_def)

lemma coherent_active:
  assumes "cache_coherent T p m" and "active_block_n p \<noteq> - 1"
  shows "0 \<le> active_block_n p" and "active_block_n p < int (kNumBlocks T)"
    and "valid_at T m (nat (active_block_n p))"
    and "sequence_at T m (nat (active_block_n p)) = sequence p"
  using assms by (auto simp: cache_coherent_def valid_at_def sequence_at_def)

lemma Save_write_flash:
  assumes f: "flash_driver T" and g: "geometry_ok T" and bi: "blank_invalid T"
    and h2: "healthy T (dev w2)" and len: "length d = sizeof_TData T"
    and sw: "Save_write T q w2 n d = (RESULT_SUCCESS, p', w')"
    and n: "0 \<le> n" "n < int (kNumBlocks T)"
  shows "active_block_n p' = n" and "sequence p' = sequence q" and "healthy T (dev w')"
    and "valid_at T (dev w') (nat n)" and "\<not> writable_at T (dev w') (nat n)"
    and "\<forall>j < kNumBlocks T. j \<noteq> nat n \<longrightarrow>
           valid_at T (dev w') j = valid_at T (dev w2) j \<and>
           sequence_at T (dev w') j = sequence_at T (dev w2) j \<and>
           writable_at T (dev w') j = writable_at T (dev w2) j"
proof -
  let ?p2 = "Save_encode T q n d"
  have N15: "kNumBlocks T \<le> 2 ^ 15" by (rule kNumBlocks_le)
  have u: "u32 n = nat n" using n N15 by (simp add: u32_small)
  have nn: "nat n < kNumBlocks T" using n by simp
  have le: "sizeof_TData T \<le> length d" using len by simp
  from Save_write_success [OF sw] u have p': "p' = ?p2"
    and wr: "nvmem_Write T w2 (BlockLocation T (nat n)) (Block_bytes (block ?p2)) (kBlockSize T)
               = (w', True)" by simp_all
  note bl = Save_encode_bytes(1) [OF g le, of q n]
  show "active_block_n p' = n" "sequence p' = sequence q"
    by (simp_all add: p' Save_encode_fields)
  from flash_Write_written(1) [OF f h2 wr bl]
  show h': "healthy T (dev w')" .
  from flash_Write_written(2) [OF f h2 wr bl]
  have st: "stored_block T (dev w') (nat n) = Some (block ?p2)"
    by (simp add: Save_encode_bytes(2) [OF g le])
  from st Save_encode_valid [OF le, of q n] show v: "valid_at T (dev w') (nat n)"
    by (simp add: valid_at_def)
  from writable_invalid [OF f g h' bi nn] v show "\<not> writable_at T (dev w') (nat n)" by blast
  show "\<forall>j < kNumBlocks T. j \<noteq> nat n \<longrightarrow>
           valid_at T (dev w') j = valid_at T (dev w2) j \<and>
           sequence_at T (dev w') j = sequence_at T (dev w2) j \<and>
           writable_at T (dev w') j = writable_at T (dev w2) j"
  proof (intro allI impI)
    fix j assume j: "j < kNumBlocks T" "j \<noteq> nat n"
    note o = flash_Write_others [OF f g h2 wr bl nn j]
    from stored_same [OF o(1)] o(2)
    show "valid_at T (dev w') j = valid_at T (dev w2) j \<and>
           sequence_at T (dev w') j = sequence_at T (dev w2) j \<and>
           writable_at T (dev w') j = writable_at T (dev w2) j" by simp
  qed
qed

lemma flash_Erase_page:
  assumes f: "flash_driver T" and g: "geometry_ok T" and bi: "blank_invalid T"
    and h: "healthy T (dev w)"
    and er: "nvmem_Erase T w (q * kPageSize T) (kPageSize T) = (w', True)"
  shows "healthy T (dev w')"
    and "\<forall>j < kNumBlocks T. page_of T j = q \<longrightarrow>
           writable_at T (dev w') j \<and> \<not> valid_at T (dev w') j"
    and "\<forall>j < kNumBlocks T. page_of T j \<noteq> q \<longrightarrow>
           valid_at T (dev w') j = valid_at T (dev w) j \<and>
           sequence_at T (dev w') j = sequence_at T (dev w) j \<and>
           writable_at T (dev w') j = writable_at T (dev w) j"
proof -
  let ?PS = "kPageSize T" and ?BS = "kBlockSize T"
  show h': "healthy T (dev w')"
    using flash_Erase_healthy [OF f h, of "q * ?PS" ?PS] er by simp
  show "\<forall>j < kNumBlocks T. page_of T j = q \<longrightarrow>
           writable_at T (dev w') j \<and> \<not> valid_at T (dev w') j"
  proof (intro allI impI)
    fix j assume j: "j < kNumBlocks T" "page_of T j = q"
    from geom_BlockLocation(2,3) [OF g j(1)] j(2)
    have "q * ?PS \<le> BlockLocation T j \<and> BlockLocation T j + ?BS \<le> q * ?PS + ?PS"
      by (simp add: page_of_def)
    from flash_Erase_blocks(1) [OF f g h er j(1) this]
    have wj: "writable_at T (dev w') j" by simp
    with writable_invalid [OF f g h' bi j(1)]
    show "writable_at T (dev w') j \<and> \<not> valid_at T (dev w') j" by simp
  qed
  show "\<forall>j < kNumBlocks T. page_of T j \<noteq> q \<longrightarrow>
           valid_at T (dev w') j = valid_at T (dev w) j \<and>
           sequence_at T (dev w') j = sequence_at T (dev w) j \<and>
           writable_at T (dev w') j = writable_at T (dev w) j"
  proof (intro allI impI)
    fix j assume j: "j < kNumBlocks T" "page_of T j \<noteq> q"
    let ?pj = "j div kBlocksPerPage T"
    note bl = geom_BlockLocation(2,3) [OF g j(1)]
    have "BlockLocation T j + ?BS \<le> q * ?PS \<or> q * ?PS + ?PS \<le> BlockLocation T j"
    proof (cases "?pj < q")
      case True
      then have "(?pj + 1) * ?PS \<le> q * ?PS" by (intro mult_le_mono1) simp
      with bl(2) show ?thesis by simp
    next
      case False
      with j(2) have "q + 1 \<le> ?pj" by (simp add: page_of_def)
      then have "(q + 1) * ?PS \<le> ?pj * ?PS" by (intro mult_le_mono1)
      with bl(1) show ?thesis by simp
    qed
    from flash_Erase_blocks(2) [OF f g h er j(1) this]
    have o: "stored_block T (dev w') j = stored_block T (dev w) j"
      "writable_at T (dev w') j = writable_at T (dev w) j" by simp_all
    from stored_same [OF o(1)] o(2)
    show "valid_at T (dev w') j = valid_at T (dev w) j \<and>
           sequence_at T (dev w') j = sequence_at T (dev w) j \<and>
           writable_at T (dev w') j = writable_at T (dev w) j" by simp
  qed
qed

lemma flash_Erase_all:
  assumes f: "flash_driver T" and g: "geometry_ok T" and bi: "blank_invalid T"
    and h: "healthy T (dev w)"
    and er: "nvmem_Erase T w 0 (kNumPages T * kPageSize T) = (w', True)"
  shows "healthy T (dev w')"
    and "\<forall>j < kNumBlocks T. writable_at T (dev w') j \<and> \<not> valid_at T (dev w') j"
proof -
  let ?PS = "kPageSize T" and ?BS = "kBlockSize T"
  show h': "healthy T (dev w')"
    using flash_Erase_healthy [OF f h, of 0 "kNumPages T * ?PS"] er by simp
  show "\<forall>j < kNumBlocks T. writable_at T (dev w') j \<and> \<not> valid_at T (dev w') j"
  proof (intro allI impI)
    fix j assume j: "j < kNumBlocks T"
    from geom_BlockLocation(4) [OF g j]
    have "(j div kBlocksPerPage T + 1) * ?PS \<le> kNumPages T * ?PS"
      by (intro mult_le_mono1) simp
    with geom_BlockLocation(3) [OF g j]
    have "0 \<le> BlockLocation T j \<and> BlockLocation T j + ?BS \<le> 0 + kNumPages T * ?PS" by simp
    from flash_Erase_blocks(1) [OF f g h er j this]
    have wj: "writable_at T (dev w') j" by simp
    with writable_invalid [OF f g h' bi j]
    show "writable_at T (dev w') j \<and> \<not> valid_at T (dev w') j" by simp
  qed
qed

text \<open>A successful Save keeps the region as the class writes it.\<close>

lemma Save_ring_inv:
  assumes f: "flash_driver T" and g: "geometry_ok T" and bi: "blank_invalid T"
    and h: "healthy T (dev w)" and c: "cache_coherent T p (dev w)"
    and ri: "ring_inv T p (dev w)" and len: "length d = sizeof_TData T"
    and s: "Save T p w d = Some (RESULT_SUCCESS, p', w')"
  shows "ring_inv T p' (dev w')"
proof (cases "DataIsSame T p d")
  case True
  with s have "p' = p" "w' = w" by (simp_all add: Save_def)
  with ri show ?thesis by simp
next
  case False
  let ?N = "kNumBlocks T" and ?m = "dev w"
  from g have n0: "0 < ?N" and B: "0 < kBlocksPerPage T" by (simp_all add: geometry_ok_def)
  from False s obtain n w1 where nw: "NextWritableBlock T (active_block_n p) w = Some (n, w1)"
    by (auto simp: Save_def split: option.splits)
  have ar: "active_block_n p = - 1 \<or> (0 \<le> active_block_n p \<and> active_block_n p < int ?N)"
    using coherent_active(1,2) [OF c] by blast
  define cc where "cc = (if active_block_n p = - 1 then ?N - 1 else nat (active_block_n p))"
  note first = NextWritableBlock_first [OF f n0 nw ar cc_def]
  note w1 = first(1)
  have h1: "healthy T (dev w1)" using h w1 by simp
  have inv: "\<forall>j < ?N. writable_at T ?m j \<longrightarrow> \<not> valid_at T ?m j"
    using writable_invalid [OF f g h bi] by blast
  have act: "valid_at T ?m (nat (active_block_n p)) \<and>
      \<not> writable_at T ?m (nat (active_block_n p)) \<and>
      sequence_at T ?m (nat (active_block_n p)) = sequence p" if "active_block_n p \<noteq> - 1"
  proof -
    note ca = coherent_active [OF c that]
    from ca(1,2) have "nat (active_block_n p) < ?N" by simp
    with inv ca(3,4) show ?thesis by blast
  qed
  show ?thesis
  proof (cases "n = - 1")
    case nfree: False
    with s False nw have sw: "Save_write T (p\<lparr>sequence := sequence p + 1\<rparr>) w1 n d
        = (RESULT_SUCCESS, p', w')"
      by (simp add: Save_def)
    from first(2) [OF nfree] have nr: "0 \<le> n" "n < int ?N" "nat n \<noteq> cc"
      "writable_at T ?m (nat n)"
      "\<forall>k < ?N. writable_at T ?m k \<longrightarrow> k = nat n \<or> fwd ?N cc (nat n) < fwd ?N cc k"
      by simp_all
    note W = Save_write_flash [OF f g bi h1 len sw nr(1,2)]
    show ?thesis
    proof (rule ring_step_free [OF ri _ cc_def _ nr(3,4,5)])
      show "active_block_n p \<noteq> - 1 \<longrightarrow>
              valid_at T ?m (nat (active_block_n p)) \<and>
              \<not> writable_at T ?m (nat (active_block_n p)) \<and>
              sequence_at T ?m (nat (active_block_n p)) = sequence p"
        using act by blast
      show "nat n < ?N" using nr(1,2) by simp
      show "active_block_n p' = int (nat n)" using W(1) nr(1) by simp
      show "sequence p' = sequence p + 1" using W(2) by simp
      show "valid_at T (dev w') (nat n)" by (rule W(4))
      show "\<not> writable_at T (dev w') (nat n)" by (rule W(5))
      show "\<forall>j < ?N. j \<noteq> nat n \<longrightarrow>
                  valid_at T (dev w') j = valid_at T ?m j \<and>
                  sequence_at T (dev w') j = sequence_at T ?m j \<and>
                  writable_at T (dev w') j = writable_at T ?m j"
        using W(6) w1 by simp
      show "\<forall>j < ?N. writable_at T ?m j \<longrightarrow> \<not> valid_at T ?m j" by (rule inv)
    qed
  next
    case full: True
    note none = first(3) [OF full]
    show ?thesis
    proof (cases "active_block_n p = - 1")
      case noact: True
      have sz: "(kNumPages T * kPageSize T) mod 2 ^ 32 = kNumPages T * kPageSize T"
        using geom_region [OF g] g by (simp add: geometry_ok_def)
      let ?er = "nvmem_Erase T w1 0 (kNumPages T * kPageSize T)"
      let ?erm = "nvmem_Erase T w1 0 ((kNumPages T * kPageSize T) mod 2 ^ 32)"
      from s False nw full noact have e0: "?erm = (fst ?erm, True)"
        "Save_write T (p\<lparr>sequence := 0\<rparr>) (fst ?erm) 0 d = (RESULT_SUCCESS, p', w')"
        by (auto simp: Save_def split: prod.splits bool.splits)
      have er: "?er = (fst ?er, True)" using e0(1) by (simp only: sz)
      have sw: "Save_write T (p\<lparr>sequence := 0\<rparr>) (fst ?er) 0 d = (RESULT_SUCCESS, p', w')"
        using e0(2) by (simp only: sz)
      note E = flash_Erase_all [OF f g bi h1 er]
      have z: "(0::int) \<le> 0" "(0::int) < int ?N" using n0 by simp_all
      note W = Save_write_flash [OF f g bi E(1) len sw z]
      show ?thesis
      proof (rule ring_step_all [OF _ n0])
        show "active_block_n p' = 0" by (rule W(1))
        show "\<not> writable_at T (dev w') 0" using W(5) by simp
        show "\<forall>j < ?N. j \<noteq> 0 \<longrightarrow> \<not> valid_at T (dev w') j" using W(6) E(2) by simp
      qed
    next
      case isact: False
      note ca = coherent_active [OF c isact] and av = act [OF isact]
      define A where "A = nat (active_block_n p)"
      have ccA: "cc = A" using isact by (simp add: cc_def A_def)
      note np = next_page_geometry [OF g ca(1,2)]
      define q where "q = next_page_of T (active_block_n p)"
      let ?er = "nvmem_Erase T w1 (q * kPageSize T) (kPageSize T)"
      let ?erm = "nvmem_Erase T w1 ((q * kPageSize T) mod 2 ^ 32) (kPageSize T)"
      from s False nw full isact have e0: "?erm = (fst ?erm, True)"
        "Save_write T (p\<lparr>sequence := sequence p + 1\<rparr>) (fst ?erm)
           (int ((q * kBlocksPerPage T) mod 2 ^ 32)) d = (RESULT_SUCCESS, p', w')"
        by (auto simp: Save_def Let_def q_def split: prod.splits bool.splits)
      note npq = np(3,4) [folded q_def]
      have er: "?er = (fst ?er, True)" using e0(1) by (simp only: npq)
      have sw: "Save_write T (p\<lparr>sequence := sequence p + 1\<rparr>) (fst ?er)
           (int (q * kBlocksPerPage T)) d = (RESULT_SUCCESS, p', w')"
        using e0(2) by (simp only: npq)
      note E = flash_Erase_page [OF f g bi h1 er]
      have z: "0 \<le> int (q * kBlocksPerPage T)" "int (q * kBlocksPerPage T) < int ?N"
        using np(5) by (simp_all only: q_def of_nat_less_iff of_nat_0_le_iff)
      note W = Save_write_flash [OF f g bi E(1) len sw z, unfolded nat_int]
      have nowr: "\<forall>k < ?N. \<not> writable_at T ?m k"
        using none av ccA by (auto simp: A_def)
      show ?thesis
      proof (rule ring_step_page [OF ri isact A_def _ nowr B geom_NumBlocks_le(1) [OF g]])
        show "sequence_at T ?m A = sequence p" using av by (simp add: A_def)
        show "q = (page_of T A + 1) mod kNumPages T"
          using np(1) by (simp add: q_def A_def page_of_def)
        show "q * kBlocksPerPage T = q * kBlocksPerPage T" by simp
        show "q * kBlocksPerPage T < ?N" using np(5) by (simp add: q_def)
        show "active_block_n p' = int (q * kBlocksPerPage T)" by (rule W(1))
        show "sequence p' = sequence p + 1" using W(2) by simp
        show "valid_at T (dev w') (q * kBlocksPerPage T)" by (rule W(4))
        show "\<not> writable_at T (dev w') (q * kBlocksPerPage T)" by (rule W(5))
        show "\<forall>j < ?N. j \<noteq> q * kBlocksPerPage T \<and> page_of T j = q \<longrightarrow>
            \<not> valid_at T (dev w') j"
          using W(6) E(2) by simp
        show "\<forall>j < ?N. page_of T j \<noteq> q \<longrightarrow>
                  valid_at T (dev w') j = valid_at T ?m j \<and>
                  sequence_at T (dev w') j = sequence_at T ?m j \<and>
                  writable_at T (dev w') j = writable_at T ?m j"
        proof (intro allI impI)
          fix j assume j: "j < ?N" "page_of T j \<noteq> q"
          then have "j \<noteq> q * kBlocksPerPage T" using page_range(3) [OF B, of q] by auto
          with W(6) E(3) j w1 show "valid_at T (dev w') j = valid_at T ?m j \<and>
                  sequence_at T (dev w') j = sequence_at T ?m j \<and>
                  writable_at T (dev w') j = writable_at T ?m j" by simp
        qed
      qed
    qed
  qed
qed


subsection \<open>Load and Init after a successful Save\<close>

lemma Save_success_active:
  assumes "Save T p w d = Some (RESULT_SUCCESS, p', w')"
  shows "active_block_n p' \<noteq> - 1"
    and "take (sizeof_TData T) (data (block p')) = take (sizeof_TData T) d"
proof -
  have written: "active_block_n p' = n \<and>
      take (sizeof_TData T) (data (block p')) = take (sizeof_TData T) d"
    if "Save_write T q w2 n d = (RESULT_SUCCESS, p', w')" for q w2 n
    using Save_write_success(1) [OF that] by (simp add: Save_encode_fields)
  have "active_block_n p' \<noteq> - 1 \<and>
      take (sizeof_TData T) (data (block p')) = take (sizeof_TData T) d"
  proof (cases "DataIsSame T p d")
    case True
    with assms have "p' = p" by (simp add: Save_def)
    with True show ?thesis by (simp add: DataIsSame_def)
  next
    case False
    from False assms obtain n w1 where
      nw: "NextWritableBlock T (active_block_n p) w = Some (n, w1)"
      by (auto simp: Save_def split: option.splits)
    show ?thesis
    proof (cases "n = - 1")
      case nfree: False
      with assms False nw have "Save_write T (p\<lparr>sequence := sequence p + 1\<rparr>) w1 n d
          = (RESULT_SUCCESS, p', w')"
        by (simp add: Save_def)
      from written [OF this] nfree show ?thesis by simp
    next
      case True
      with assms False nw obtain q w2 m where
        "Save_write T q w2 m d = (RESULT_SUCCESS, p', w')" "0 \<le> m"
        by (auto simp: Save_def Let_def split: if_splits prod.splits bool.splits)
      from written [OF this(1)] this(2) show ?thesis by auto
    qed
  qed
  then show "active_block_n p' \<noteq> - 1"
    and "take (sizeof_TData T) (data (block p')) = take (sizeof_TData T) d" by simp_all
qed

lemma ring_newest:
  assumes ri: "ring_inv T p m" and act: "active_block_n p \<noteq> - 1"
  shows "newest_on_media T m (active_block_n p) (sequence p)"
  unfolding newest_on_media_def
proof (intro allI impI)
  fix j b
  assume j: "j < kNumBlocks T"
    and b: "int j \<noteq> active_block_n p \<and> stored_block T m j = Some b \<and> block_valid T b"
  define A where "A = nat (active_block_n p)"
  note D = ring_invD [OF ri act A_def]
  have AN: "A < kNumBlocks T" using D(1,2) by (simp add: A_def)
  have jA: "j \<noteq> A" using b D(1) by (auto simp: A_def)
  have v: "valid_at T m j" and sq: "sequence_at T m j = sequence_n b"
    using b by (simp_all add: valid_at_def sequence_at_def)
  from D(3) [OF j v jA] fwd_bounds(1) [OF AN j]
  have "0 < age T p m j" "age T p m j < kNumBlocks T" by simp_all
  then show "0 < unat (sequence p - sequence_n b) \<and>
      unat (sequence p - sequence_n b) < kNumBlocks T"
    by (simp add: age_def sq)
qed

lemma ring_inv_cong:
  assumes "active_block_n q = active_block_n p" and "sequence q = sequence p"
  shows "ring_inv T q m = ring_inv T p m"
  by (simp add: ring_inv_def age_def assms)

lemma cache_coherent_cong:
  assumes "active_block_n q = active_block_n p" and "sequence q = sequence p"
    and "block q = block p"
  shows "cache_coherent T q m = cache_coherent T p m"
  by (simp add: cache_coherent_def assms)

text \<open>
  \<open>Init\<close> on a region that holds no valid block (a virgin region, for one) leaves the
  instance and the region in the state from which the class writes its ring.
\<close>

lemma Init_ring_inv_empty:
  assumes pure: "reads_pure T (dev w)"
    and none: "\<forall>i < kNumBlocks T. \<exists>b. stored_block T (dev w) i = Some b \<and> \<not> block_valid T b"
  shows "\<exists>p' w'. Init T p w = (RESULT_SUCCESS, p', w') \<and> dev w' = dev w \<and>
           cache_coherent T p' (dev w') \<and> ring_inv T p' (dev w')"
proof -
  from Reset_none_valid [OF pure none, of p] obtain p' w' where
    r: "Reset T p w = (RESULT_SUCCESS, p', w')" and a: "active_block_n p' = - 1" by blast
  have d: "dev w' = dev w" by (rule Reset_established(1) [OF pure r])
  have "\<forall>j < kNumBlocks T. \<not> valid_at T (dev w) j"
    using none by (auto simp: valid_at_def)
  with a d have "ring_inv T p' (dev w')" by (simp add: ring_inv_def)
  with r a d show ?thesis by (simp add: Init_def cache_coherent_def)
qed

lemma Init_finds_active:
  assumes f: "flash_driver T" and g: "geometry_ok T" and h: "healthy T m"
    and c: "cache_coherent T p m" and ri: "ring_inv T p m"
    and act: "active_block_n p \<noteq> - 1" and w: "dev w = m"
  shows "\<exists>p'' w''. Init T p0 w = (RESULT_SUCCESS, p'', w'') \<and> dev w'' = m \<and>
           active_block_n p'' = active_block_n p \<and> sequence p'' = sequence p \<and>
           block p'' = block p"
proof -
  from c act have r: "0 \<le> active_block_n p" "active_block_n p < int (kNumBlocks T)"
    and st: "stored_block T m (nat (active_block_n p)) = Some (block p)"
    and v: "block_valid T (block p)" and sq: "sequence_n (block p) = sequence p"
    by (auto simp: cache_coherent_def)
  have pure: "reads_pure T m"
    using f by (intro flash_reads_pure) (simp add: flash_driver_def)
  have readable: "\<forall>j < kNumBlocks T. \<exists>b. stored_block T m j = Some b"
    using flash_all_stored [OF f g h] by blast
  have an: "nat (active_block_n p) < kNumBlocks T"
    "int (nat (active_block_n p)) = active_block_n p"
    using r by simp_all
  have nw: "newest_on_media T m (int (nat (active_block_n p))) (sequence p)"
    using ring_newest [OF ri act] an(2) by simp
  from Init_finds_newest [OF pure readable an(1) st v sq nw w, of p0] an(2)
  obtain p'' w'' where i: "Init T p0 w = (RESULT_SUCCESS, p'', w'')"
    "active_block_n p'' = active_block_n p" "sequence p'' = sequence p" "block p'' = block p"
    by auto
  have "reads_pure T (dev w)" using pure w by simp
  from Reset_established(1) [OF this i(1) [unfolded Init_def]] w have "dev w'' = m" by simp
  with i show ?thesis by blast
qed


subsection \<open>Claim C1\<close>

text \<open>
  Claim C1 as stated: after a successful \<open>Save(d)\<close> with no hardware failure, \<open>Load\<close>
  yields \<open>d\<close>, also after \<open>Init\<close>. The claim puts no condition on what the region
  holds, and \<open>Init\<close> accepts every region. On a healthy flash of three blocks whose
  region holds a valid block with sequence number 0, a blank block and a valid block
  with sequence number 3 (not a region that the class itself writes: \<open>ring_inv\<close> fails),
  \<open>Init\<close> selects block 0, \<open>Save\<close> of the record \<open>0x42\<close> succeeds in block 1 with
  sequence number 1, and \<open>Load\<close> yields \<open>0x42\<close>; but the \<open>Init\<close> that follows selects
  block 2, whose sequence number is now within \<open>kNumBlocks\<close> above that of block 1, and
  \<open>Load\<close> yields its record \<open>0xBB\<close>.
\<close>

theorem Save_Init_Load_counterexample:
  "Init T3 fresh
     (start (flash_dev ([170, 0, 0, 63, 177] @ replicate 5 255 @ [187, 3, 0, 63, 144])
               False False False)) =
     (RESULT_SUCCESS,
      \<lparr>block = \<lparr>data = [170], sequence_n = 0, crc = 45375, padding = []\<rparr>,
       active_block_n = 0, sequence = 0\<rparr>,
      \<lparr>dev = flash_dev ([170, 0, 0, 63, 177] @ replicate 5 255 @ [187, 3, 0, 63, 144])
               False False False,
       trace = [OpRead 0 5, OpRead 5 5, OpRead 10 5, OpRead 0 5]\<rparr>) \<and>
   Save T3
     \<lparr>block = \<lparr>data = [170], sequence_n = 0, crc = 45375, padding = []\<rparr>,
      active_block_n = 0, sequence = 0\<rparr>
     (start (flash_dev ([170, 0, 0, 63, 177] @ replicate 5 255 @ [187, 3, 0, 63, 144])
               False False False)) [0x42] =
     Some (RESULT_SUCCESS,
      \<lparr>block = \<lparr>data = [66], sequence_n = 1, crc = 35742, padding = []\<rparr>,
       active_block_n = 1, sequence = 1\<rparr>,
      \<lparr>dev = flash_dev ([170, 0, 0, 63, 177] @ [66, 1, 0, 158, 139] @ [187, 3, 0, 63, 144])
               False False False,
       trace = [OpWritable 5 5, OpWrite 5 [66, 1, 0, 158, 139] 5]\<rparr>) \<and>
   Load T3
     \<lparr>block = \<lparr>data = [66], sequence_n = 1, crc = 35742, padding = []\<rparr>,
      active_block_n = 1, sequence = 1\<rparr> [] = (RESULT_SUCCESS, [0x42]) \<and>
   Save_Init_Load T3
     \<lparr>block = \<lparr>data = [170], sequence_n = 0, crc = 45375, padding = []\<rparr>,
      active_block_n = 0, sequence = 0\<rparr>
     (start (flash_dev ([170, 0, 0, 63, 177] @ replicate 5 255 @ [187, 3, 0, 63, 144])
               False False False)) [0x42] [] =
     Some (RESULT_SUCCESS, RESULT_SUCCESS, RESULT_SUCCESS, [0xBB]) \<and>
   \<not> ring_inv T3
     \<lparr>block = \<lparr>data = [170], sequence_n = 0, crc = 45375, padding = []\<rparr>,
      active_block_n = 0, sequence = 0\<rparr>
     (flash_dev ([170, 0, 0, 63, 177] @ replicate 5 255 @ [187, 3, 0, 63, 144])
        False False False)"
proof -
  let ?m = "flash_dev ([170, 0, 0, 63, 177] @ replicate 5 255 @ [187, 3, 0, 63, 144])
        False False False"
  let ?p = "\<lparr>block = \<lparr>data = [170], sequence_n = 0, crc = 45375, padding = []\<rparr>,
      active_block_n = 0, sequence = 0\<rparr>"
  have v: "valid_at T3 ?m 2" "sequence_at T3 ?m 2 = 3"
    by (simp_all add: valid_at_def sequence_at_def stored_block_def block_valid_def T3_eval)
  have "age T3 ?p ?m 2 = unat (0 - 3 :: u16)" unfolding age_def v(2) by simp
  then have age: "age T3 ?p ?m 2 = 65533" by simp
  have "\<not> ring_inv T3 ?p ?m"
  proof
    assume r: "ring_inv T3 ?p ?m"
    have act: "active_block_n ?p \<noteq> - 1" by simp
    from ring_invD(3) [OF r act refl, of 2] v(1)
    have "age T3 ?p ?m 2 + fwd (kNumBlocks T3) (nat (active_block_n ?p)) 2 \<le> kNumBlocks T3"
      by (simp add: T3_geometry)
    with age show False by (simp add: T3_geometry)
  qed
  then show ?thesis by (simp add: T3_eval Save_Init_Load_def)
qed

text \<open>
  Claim C1, amended. For every record \<open>d\<close> of \<open>sizeof(TData)\<close> bytes, every driver and
  every state: after a successful \<open>Save(d)\<close>, \<open>Load\<close> returns \<open>SUCCESS\<close> and yields \<open>d\<close>.
  Across re-initialization the same holds on a flash without hardware failure, for
  parameters with which a block of fill bytes fails the CRC test, when before the
  \<open>Save\<close> the instance agrees with the media and the region is as the class writes it
  (\<open>ring_inv\<close>): then \<open>Init\<close>, on this or on a new instance, returns \<open>SUCCESS\<close> and \<open>Load\<close>
  yields \<open>d\<close>, so \<open>Save(d); Init; Load(o)\<close> gives \<open>o = d\<close> with every call returning
  \<open>SUCCESS\<close>; and after the \<open>Save\<close>, and after the \<open>Init\<close>, the instance again agrees
  with the media and the region is again as the class writes it.
\<close>

theorem Save_Init_Load_round_trip:
  assumes len: "length d = sizeof_TData T"
    and s: "Save T p w d = Some (RESULT_SUCCESS, p', w')"
  shows "Load T p' out = (RESULT_SUCCESS, d) \<and>
         (flash_driver T \<and> geometry_ok T \<and> blank_invalid T \<and> healthy T (dev w) \<and>
          cache_coherent T p (dev w) \<and> ring_inv T p (dev w) \<longrightarrow>
            (\<forall>p0. \<exists>p'' w''. Init T p0 w' = (RESULT_SUCCESS, p'', w'') \<and>
                     Load T p'' out = (RESULT_SUCCESS, d) \<and> dev w'' = dev w' \<and>
                     cache_coherent T p'' (dev w'') \<and> ring_inv T p'' (dev w'')) \<and>
            Save_Init_Load T p w d out =
              Some (RESULT_SUCCESS, RESULT_SUCCESS, RESULT_SUCCESS, d) \<and>
            healthy T (dev w') \<and> cache_coherent T p' (dev w') \<and> ring_inv T p' (dev w'))"
proof -
  note a = Save_success_active [OF s]
  have load: "Load T q out = (RESULT_SUCCESS, d)"
    if "active_block_n q = active_block_n p'" "block q = block p'" for q
    using that a len by (simp add: Load_def)
  have l: "Load T p' out = (RESULT_SUCCESS, d)" by (rule load) simp_all
  have rest: "(\<forall>p0. \<exists>p'' w''. Init T p0 w' = (RESULT_SUCCESS, p'', w'') \<and>
                     Load T p'' out = (RESULT_SUCCESS, d) \<and> dev w'' = dev w' \<and>
                     cache_coherent T p'' (dev w'') \<and> ring_inv T p'' (dev w'')) \<and>
            Save_Init_Load T p w d out =
              Some (RESULT_SUCCESS, RESULT_SUCCESS, RESULT_SUCCESS, d) \<and>
            healthy T (dev w') \<and> cache_coherent T p' (dev w') \<and> ring_inv T p' (dev w')"
    if f: "flash_driver T" and g: "geometry_ok T" and bi: "blank_invalid T"
      and h: "healthy T (dev w)" and c: "cache_coherent T p (dev w)"
      and ri: "ring_inv T p (dev w)"
  proof -
    from Save_success_flash [OF f g h c len s]
    have h': "healthy T (dev w')" and c': "cache_coherent T p' (dev w')" by simp_all
    have ri': "ring_inv T p' (dev w')" by (rule Save_ring_inv [OF f g bi h c ri len s])
    have init: "\<exists>p'' w''. Init T p0 w' = (RESULT_SUCCESS, p'', w'') \<and>
                     Load T p'' out = (RESULT_SUCCESS, d) \<and> dev w'' = dev w' \<and>
                     cache_coherent T p'' (dev w'') \<and> ring_inv T p'' (dev w'')" for p0
    proof -
      from Init_finds_active [OF f g h' c' ri' a(1) refl, of p0]
      obtain p'' w'' where i: "Init T p0 w' = (RESULT_SUCCESS, p'', w'')" "dev w'' = dev w'"
        "active_block_n p'' = active_block_n p'" "sequence p'' = sequence p'"
        "block p'' = block p'" by blast
      from cache_coherent_cong [OF i(3,4,5), of T "dev w''"]
        ring_inv_cong [OF i(3,4), of T "dev w''"] c' ri' i(2)
      have "cache_coherent T p'' (dev w'')" "ring_inv T p'' (dev w'')" by simp_all
      with i load [OF i(3,5)] show ?thesis by blast
    qed
    from init [of p'] obtain p'' w'' where
      "Init T p' w' = (RESULT_SUCCESS, p'', w'')" "Load T p'' out = (RESULT_SUCCESS, d)"
      by blast
    with s have "Save_Init_Load T p w d out =
           Some (RESULT_SUCCESS, RESULT_SUCCESS, RESULT_SUCCESS, d)"
      by (simp add: Save_Init_Load_def)
    with init h' c' ri' show ?thesis by blast
  qed
  from l rest show ?thesis by blast
qed

theorem Save_Init_Load_round_trip_witness:
  "flash_driver T3 \<and> geometry_ok T3 \<and> blank_invalid T3 \<and>
   healthy T3 (flash_dev [69, 4, 0, 251, 241, 67, 2, 0, 253, 233, 68, 3, 0, 92, 95]
                 False False False) \<and>
   cache_coherent T3
     \<lparr>block = \<lparr>data = [69], sequence_n = 4, crc = 61947, padding = []\<rparr>,
      active_block_n = 0, sequence = 4\<rparr>
     (flash_dev [69, 4, 0, 251, 241, 67, 2, 0, 253, 233, 68, 3, 0, 92, 95] False False False) \<and>
   ring_inv T3
     \<lparr>block = \<lparr>data = [69], sequence_n = 4, crc = 61947, padding = []\<rparr>,
      active_block_n = 0, sequence = 4\<rparr>
     (flash_dev [69, 4, 0, 251, 241, 67, 2, 0, 253, 233, 68, 3, 0, 92, 95] False False False) \<and>
   Save T3
     \<lparr>block = \<lparr>data = [69], sequence_n = 4, crc = 61947, padding = []\<rparr>,
      active_block_n = 0, sequence = 4\<rparr>
     (start (flash_dev [69, 4, 0, 251, 241, 67, 2, 0, 253, 233, 68, 3, 0, 92, 95]
               False False False)) [0x46] =
     Some (RESULT_SUCCESS,
      \<lparr>block = \<lparr>data = [70], sequence_n = 5, crc = 39834, padding = []\<rparr>,
      active_block_n = 1, sequence = 5\<rparr>,
      \<lparr>dev = flash_dev [69, 4, 0, 251, 241, 70, 5, 0, 154, 155, 68, 3, 0, 92, 95]
               False False False,
       trace = [OpWritable 5 5, OpWritable 10 5, OpWritable 0 5, OpErase 5 5,
                OpWrite 5 [70, 5, 0, 154, 155] 5]\<rparr>) \<and>
   Load T3
     \<lparr>block = \<lparr>data = [70], sequence_n = 5, crc = 39834, padding = []\<rparr>,
      active_block_n = 1, sequence = 5\<rparr> [] = (RESULT_SUCCESS, [0x46]) \<and>
   Save_Init_Load T3
     \<lparr>block = \<lparr>data = [69], sequence_n = 4, crc = 61947, padding = []\<rparr>,
      active_block_n = 0, sequence = 4\<rparr>
     (start (flash_dev [69, 4, 0, 251, 241, 67, 2, 0, 253, 233, 68, 3, 0, 92, 95]
               False False False)) [0x46] [] =
     Some (RESULT_SUCCESS, RESULT_SUCCESS, RESULT_SUCCESS, [0x46]) \<and>
   ring_inv T3
     \<lparr>block = \<lparr>data = [70], sequence_n = 5, crc = 39834, padding = []\<rparr>,
      active_block_n = 1, sequence = 5\<rparr>
     (flash_dev [69, 4, 0, 251, 241, 70, 5, 0, 154, 155, 68, 3, 0, 92, 95] False False False)"
proof -
  let ?m = "flash_dev [69, 4, 0, 251, 241, 67, 2, 0, 253, 233, 68, 3, 0, 92, 95]
               False False False"
  let ?p = "\<lparr>block = \<lparr>data = [69], sequence_n = 4, crc = 61947, padding = []\<rparr>,
      active_block_n = 0, sequence = 4\<rparr>"
  let ?m' = "flash_dev [69, 4, 0, 251, 241, 70, 5, 0, 154, 155, 68, 3, 0, 92, 95]
               False False False"
  let ?p' = "\<lparr>block = \<lparr>data = [70], sequence_n = 5, crc = 39834, padding = []\<rparr>,
      active_block_n = 1, sequence = 5\<rparr>"
  let ?w' = "\<lparr>dev = ?m', trace = [OpWritable 5 5, OpWritable 10 5, OpWritable 0 5, OpErase 5 5,
                OpWrite 5 [70, 5, 0, 154, 155] 5]\<rparr>"
  have f: "flash_driver T3" by (simp add: flash_driver_def T3_fields)
  have bi: "blank_invalid T3"
    by (simp add: blank_invalid_def blank_block_def block_valid_def T3_eval)
  have h: "healthy T3 (dev (start ?m))"
    by (simp add: healthy_def T3_fields start_def flash_dev_def)
  have c: "cache_coherent T3 ?p (dev (start ?m))"
    by (simp add: cache_coherent_def stored_block_def block_valid_def T3_eval)
  have v: "valid_at T3 ?m 0" "valid_at T3 ?m (Suc 0)" "valid_at T3 ?m 2"
    "sequence_at T3 ?m 0 = 4" "sequence_at T3 ?m (Suc 0) = 2" "sequence_at T3 ?m 2 = 3"
    "\<not> writable_at T3 ?m 0" "\<not> writable_at T3 ?m (Suc 0)" "\<not> writable_at T3 ?m 2"
    by (simp_all add: valid_at_def sequence_at_def writable_at_def stored_block_def
        block_valid_def T3_eval)
  have ri: "ring_inv T3 ?p (dev (start ?m))"
    by (simp add: ring_inv_def all_less_3 T3_geometry age_def fwd_def page_of_def v start_def)
  have s: "Save T3 ?p (start ?m) [0x46] = Some (RESULT_SUCCESS, ?p', ?w')"
    by (simp add: T3_eval)
  have l: "length [0x46 :: u8] = sizeof_TData T3" by (simp add: T3_fields)
  from Save_Init_Load_round_trip [OF l s, of "[]"] f T3_ok bi h c ri s
  show ?thesis by (simp add: start_def)
qed

end
